theory Spec2Isabelle
  imports Main "HOL-Library.Word" "HOL-Library.Signed_Division"
begin

unbundle bit_operations_syntax

section \<open>The heap walked by \<open>mm_check_heap_corruption\<close>\<close>

text \<open>
  Source: \<^verbatim>\<open>os/mm/mm_heap/mm_check_heap_corruption.c\<close>.

  Addresses and \<^verbatim>\<open>mmsize_t\<close> fields are 32-bit words (the build without
  \<^verbatim>\<open>CONFIG_MM_SMALL\<close>); pointer arithmetic \<^verbatim>\<open>(char *)node + node->size\<close> is
  word addition and pointer comparison is unsigned comparison. \<^verbatim>\<open>NULL\<close> is
  address 0.

  A node header is read through the fields the checker uses: \<^verbatim>\<open>size\<close>,
  \<^verbatim>\<open>preceding\<close> and, in the \<^verbatim>\<open>struct mm_freenode_s\<close> view of the same
  address, \<^verbatim>\<open>flink\<close> and \<^verbatim>\<open>blink\<close>. Memory is a store from addresses to
  node headers: \<open>m p\<close> is what the four fields read through the pointer \<open>p\<close>,
  and an address outside the domain of \<open>m\<close> is not readable. The store says
  nothing about how headers at different addresses overlap in bytes; every
  byte-level memory gives one such store, so a property of all stores is a property
  of all memories.
\<close>

type_synonym addr = "32 word"

type_synonym mmsize_t = "32 word"

record mm_allocnode_s =
  size_f :: mmsize_t
  preceding :: mmsize_t
  flink :: addr
  blink :: addr

type_synonym memory = "addr \<rightharpoonup> mm_allocnode_s"

text \<open>
  Modelled from the spec: \<^verbatim>\<open>MM_ALLOC_BIT\<close> is declared in
  \<^verbatim>\<open>tinyara/mm/mm.h\<close>, which is not among the sources; the spec reserves one
  bit of \<^verbatim>\<open>preceding\<close> for the node's allocation state. It is the top bit of
  the 32-bit field here.
\<close>

definition MM_ALLOC_BIT :: mmsize_t where
  "MM_ALLOC_BIT = 0x80000000"

definition MM_PREV_NODE_SIZE :: "mm_allocnode_s \<Rightarrow> mmsize_t" where
  "MM_PREV_NODE_SIZE x = preceding x AND NOT MM_ALLOC_BIT"

definition IS_ALLOCATED_NODE :: "mm_allocnode_s \<Rightarrow> bool" where
  "IS_ALLOCATED_NODE x = (preceding x AND MM_ALLOC_BIT \<noteq> 0)"

definition IS_FREE_NODE :: "mm_allocnode_s \<Rightarrow> bool" where
  "IS_FREE_NODE x = (\<not> IS_ALLOCATED_NODE x)"

datatype node_type_t = TYPE_CORRUPTED | TYPE_OVERFLOWED

text \<open>
  The fields of \<^verbatim>\<open>struct mm_heap_s\<close> that the checker reads. The arrays
  \<^verbatim>\<open>mm_heapstart[]\<close> and \<^verbatim>\<open>mm_heapend[]\<close> are indexed by region. The
  multi-region build (\<^verbatim>\<open>CONFIG_KMM_REGIONS > 1\<close>) is modelled; the single-region
  build is the case \<open>mm_nregions = 1\<close>.
\<close>

record mm_heap_s =
  mm_nregions :: nat
  mm_heapstart :: "nat \<Rightarrow> addr"
  mm_heapend :: "nat \<Rightarrow> addr"

subsection \<open>Observable effects\<close>

text \<open>
  Everything the checker does besides reading memory is recorded in a trace: each
  \<^verbatim>\<open>dbg\<close> call with its format string and its arguments, and each call of
  \<^verbatim>\<open>mm_takesemaphore\<close> and \<^verbatim>\<open>mm_givesemaphore\<close>. The state also holds the
  memory and the answer of \<^verbatim>\<open>up_interrupt_context()\<close>.
\<close>

datatype event = Dbg string "32 word list" | TakeSem | GiveSem

record kstate =
  mem :: memory
  in_irq :: bool
  trace :: "event list"

datatype error = SEGV addr

text \<open>
  How a statement ends: with a fault, by \<^verbatim>\<open>return\<close> of a value, or by falling
  through to the next statement.
\<close>

datatype outcome = Fault error | Return int kstate | Done kstate

text \<open>
  Reading a node header through a pointer: \<^verbatim>\<open>NULL\<close> and addresses outside the
  store have no node, and the read faults.
\<close>

definition node_at :: "memory \<Rightarrow> addr \<Rightarrow> mm_allocnode_s option" where
  "node_at m p = (if p = 0 then None else m p)"

definition deref :: "kstate \<Rightarrow> addr \<Rightarrow> error + mm_allocnode_s" where
  "deref s p = (case node_at (mem s) p of None \<Rightarrow> Inl (SEGV p) | Some n \<Rightarrow> Inr n)"

definition dbg :: "string \<Rightarrow> 32 word list \<Rightarrow> kstate \<Rightarrow> kstate" where
  "dbg fmt args s = s\<lparr>trace := trace s @ [Dbg fmt args]\<rparr>"

definition mm_takesemaphore :: "kstate \<Rightarrow> kstate" where
  "mm_takesemaphore s = s\<lparr>trace := trace s @ [TakeSem]\<rparr>"

definition mm_givesemaphore :: "kstate \<Rightarrow> kstate" where
  "mm_givesemaphore s = s\<lparr>trace := trace s @ [GiveSem]\<rparr>"

text \<open>
  The \<^verbatim>\<open>if (!up_interrupt_context()) { ... }\<close> guards of the flat and kernel
  builds. Elsewhere the guard is compiled out and the call is unconditional, which
  is the case \<open>in_irq s = False\<close>.
\<close>

definition take_unless_irq :: "kstate \<Rightarrow> kstate" where
  "take_unless_irq s = (if \<not> in_irq s then mm_takesemaphore s else s)"

definition give_unless_irq :: "kstate \<Rightarrow> kstate" where
  "give_unless_irq s = (if \<not> in_irq s then mm_givesemaphore s else s)"

subsection \<open>Format strings\<close>

text \<open>The format strings of the \<^verbatim>\<open>dbg\<close> calls, without the final newline.\<close>

definition HASH_LINE :: string where
  "HASH_LINE = ''#########################################################################################''"

definition EQ_LINE :: string where
  "EQ_LINE = ''=========================================================================================''"

definition ERR_NODE :: string where
  "ERR_NODE = ''ERROR: Heap node corruption detected''"

definition ERR_NODE_DOT :: string where
  "ERR_NODE_DOT = ''ERROR: Heap node corruption detected.''"

definition SCENARIO_1 :: string where
  "SCENARIO_1 = ''Possible corruption scenario 1:''"

definition SCENARIO_2 :: string where
  "SCENARIO_2 = ''Possible corruption scenario 2:''"

definition ERR_FREE_LIST :: string where
  "ERR_FREE_LIST = ''ERROR: Heap node corruption detected in free node list''"

definition FMT_CORRUPTED :: string where
  "FMT_CORRUPTED = ''CORRUPTED NODE: addr = 0x%08x size = %u preceding size = %u''"

definition FMT_OVERFLOWED :: string where
  "FMT_OVERFLOWED = ''OVERFLOWED NODE: addr = 0x%08x size = %u type = %c''"

definition FMT_BLINK :: string where
  "FMT_BLINK = ''Corrupted node blink(0x%08x) and prev node flink(0x%08x) do not match''"

definition FMT_FLINK :: string where
  "FMT_FLINK = ''Corrupted node flink(0x%08x) and next node blink(0x%08x) do not match''"

subsection \<open>\<open>dump_node\<close>\<close>

text \<open>
  \<^verbatim>\<open>dump_node\<close> reads \<^verbatim>\<open>node->size\<close> and \<^verbatim>\<open>node->preceding\<close> to build the
  arguments of its \<^verbatim>\<open>dbg\<close> call; it has no check of \<^verbatim>\<open>node\<close> against
  \<^verbatim>\<open>NULL\<close>. The character printed for \<^verbatim>\<open>%c\<close> is \<^verbatim>\<open>'A'\<close> (65) or
  \<^verbatim>\<open>'F'\<close> (70). The build without \<^verbatim>\<open>CONFIG_DEBUG_MM_HEAPINFO\<close> and with
  \<^verbatim>\<open>dbg\<close> output enabled is modelled, so the arguments are evaluated.
\<close>

fun dump_node :: "addr \<Rightarrow> node_type_t \<Rightarrow> kstate \<Rightarrow> error + kstate" where
  "dump_node node TYPE_CORRUPTED s =
     (case deref s node of
        Inl e \<Rightarrow> Inl e
      | Inr n \<Rightarrow> Inr (dbg FMT_CORRUPTED [node, size_f n, MM_PREV_NODE_SIZE n] s))"
| "dump_node node TYPE_OVERFLOWED s =
     (case deref s node of
        Inl e \<Rightarrow> Inl e
      | Inr n \<Rightarrow>
          Inr (dbg FMT_OVERFLOWED [node, size_f n, if IS_ALLOCATED_NODE n then 65 else 70] s))"

text \<open>Two \<^verbatim>\<open>dump_node\<close> calls in a row, as every report makes them.\<close>

definition dump_pair :: "addr \<Rightarrow> addr \<Rightarrow> kstate \<Rightarrow> error + kstate" where
  "dump_pair a b s =
     (case dump_node a TYPE_OVERFLOWED s of
        Inl e \<Rightarrow> Inl e
      | Inr s1 \<Rightarrow> dump_node b TYPE_CORRUPTED s1)"

subsection \<open>The loop body\<close>

text \<open>
  The conditions of the \<^verbatim>\<open>if\<close> chain, each with the reads it makes, in the
  order C evaluates them (\<^verbatim>\<open>&&\<close> does not read its right operand when the
  left one is false).
\<close>

definition prev_mismatch :: "addr \<Rightarrow> addr \<Rightarrow> kstate \<Rightarrow> error + bool" where
  \<comment> \<open>\<^verbatim>\<open>prev && prev->size != MM_PREV_NODE_SIZE(node)\<close>\<close>
  "prev_mismatch prev node s =
     (if prev = 0 then Inr False
      else case deref s prev of
        Inl e \<Rightarrow> Inl e
      | Inr p \<Rightarrow>
          (case deref s node of
             Inl e \<Rightarrow> Inl e
           | Inr n \<Rightarrow> Inr (size_f p \<noteq> MM_PREV_NODE_SIZE n)))"

definition next_mismatch :: "addr \<Rightarrow> addr \<Rightarrow> kstate \<Rightarrow> error + bool" where
  \<comment> \<open>\<^verbatim>\<open>node->size != MM_PREV_NODE_SIZE(next)\<close>\<close>
  "next_mismatch node next s =
     (case deref s node of
        Inl e \<Rightarrow> Inl e
      | Inr n \<Rightarrow>
          (case deref s next of
             Inl e \<Rightarrow> Inl e
           | Inr x \<Rightarrow> Inr (size_f n \<noteq> MM_PREV_NODE_SIZE x)))"

definition node_is_free :: "addr \<Rightarrow> kstate \<Rightarrow> error + bool" where
  \<comment> \<open>\<^verbatim>\<open>IS_FREE_NODE(node)\<close>\<close>
  "node_is_free node s =
     (case deref s node of Inl e \<Rightarrow> Inl e | Inr n \<Rightarrow> Inr (IS_FREE_NODE n))"

definition blink_mismatch :: "addr \<Rightarrow> kstate \<Rightarrow> error + bool" where
  \<comment> \<open>\<^verbatim>\<open>node->blink && node->blink->flink != node\<close>\<close>
  "blink_mismatch node s =
     (case deref s node of
        Inl e \<Rightarrow> Inl e
      | Inr n \<Rightarrow>
          (if blink n = 0 then Inr False
           else case deref s (blink n) of
             Inl e \<Rightarrow> Inl e
           | Inr b \<Rightarrow> Inr (flink b \<noteq> node)))"

definition flink_mismatch :: "addr \<Rightarrow> kstate \<Rightarrow> error + bool" where
  \<comment> \<open>\<^verbatim>\<open>node->flink && node->flink->blink != node\<close>\<close>
  "flink_mismatch node s =
     (case deref s node of
        Inl e \<Rightarrow> Inl e
      | Inr n \<Rightarrow>
          (if flink n = 0 then Inr False
           else case deref s (flink n) of
             Inl e \<Rightarrow> Inl e
           | Inr f \<Rightarrow> Inr (blink f \<noteq> node)))"

definition branch :: "error + bool \<Rightarrow> outcome \<Rightarrow> outcome \<Rightarrow> outcome" where
  \<comment> \<open>\<^verbatim>\<open>if (c) a else b\<close>, where evaluating \<^verbatim>\<open>c\<close> may fault\<close>
  "branch c a b = (case c of Inl e \<Rightarrow> Fault e | Inr t \<Rightarrow> if t then a else b)"

definition and_then :: "error + kstate \<Rightarrow> (kstate \<Rightarrow> outcome) \<Rightarrow> outcome" where
  "and_then r k = (case r of Inl e \<Rightarrow> Fault e | Inr s \<Rightarrow> k s)"

text \<open>The four reports, each ending in \<^verbatim>\<open>return -1\<close>.\<close>

definition report_prev :: "addr \<Rightarrow> addr \<Rightarrow> kstate \<Rightarrow> outcome" where
  "report_prev prev node s =
     (let s = dbg HASH_LINE [] s;
          s = dbg ERR_NODE [] s
      in and_then (dump_pair prev node s) (\<lambda>s.
           let s = dbg HASH_LINE [] s;
               s = give_unless_irq s
           in Return (- 1) s))"

definition report_next :: "addr \<Rightarrow> addr \<Rightarrow> addr \<Rightarrow> kstate \<Rightarrow> outcome" where
  "report_next prev node next s =
     (let s = dbg HASH_LINE [] s;
          s = dbg ERR_NODE_DOT [] s;
          s = dbg EQ_LINE [] s;
          s = dbg SCENARIO_1 [] s;
          s = dbg EQ_LINE [] s
      in and_then (dump_pair prev node s) (\<lambda>s.
           let s = dbg EQ_LINE [] s;
               s = dbg SCENARIO_2 [] s;
               s = dbg EQ_LINE [] s
           in and_then (dump_pair node next s) (\<lambda>s.
                let s = dbg HASH_LINE [] s;
                    s = give_unless_irq s
                in Return (- 1) s)))"

definition report_blink :: "addr \<Rightarrow> addr \<Rightarrow> kstate \<Rightarrow> outcome" where
  "report_blink prev node s =
     (let s = dbg HASH_LINE [] s;
          s = dbg ERR_FREE_LIST [] s
      in and_then (dump_pair prev node s) (\<lambda>s.
           case deref s node of
             Inl e \<Rightarrow> Fault e
           | Inr n \<Rightarrow>
               (case deref s (blink n) of
                  Inl e \<Rightarrow> Fault e
                | Inr b \<Rightarrow>
                    let s = dbg FMT_BLINK [blink n, flink b] s;
                        s = dbg HASH_LINE [] s;
                        s = give_unless_irq s
                    in Return (- 1) s)))"

definition report_flink :: "addr \<Rightarrow> addr \<Rightarrow> kstate \<Rightarrow> outcome" where
  "report_flink prev node s =
     (let s = dbg HASH_LINE [] s;
          s = dbg ERR_FREE_LIST [] s
      in and_then (dump_pair prev node s) (\<lambda>s.
           case deref s node of
             Inl e \<Rightarrow> Fault e
           | Inr n \<Rightarrow>
               (case deref s (flink n) of
                  Inl e \<Rightarrow> Fault e
                | Inr f \<Rightarrow>
                    let s = dbg FMT_FLINK [flink n, blink f] s;
                        s = dbg HASH_LINE [] s;
                        s = give_unless_irq s
                    in Return (- 1) s)))"

text \<open>
  The body of the \<^verbatim>\<open>for\<close> loop over the nodes of a region: \<open>Done\<close> when no
  branch returns.
\<close>

definition check_node :: "addr \<Rightarrow> addr \<Rightarrow> addr \<Rightarrow> kstate \<Rightarrow> outcome" where
  "check_node prev node next s =
     branch (prev_mismatch prev node s) (report_prev prev node s)
    (branch (next_mismatch node next s) (report_next prev node next s)
    (branch (node_is_free node s)
      (branch (blink_mismatch node s) (report_blink prev node s)
      (branch (flink_mismatch node s) (report_flink prev node s)
        (Done s)))
      (Done s)))"

subsection \<open>The walk\<close>

text \<open>
  \<^verbatim>\<open>for (; node < heap->mm_heapend[region]; prev = node, node = next,
  next = (char *)next + next->size)\<close>. The loop has no bound of its own, so the
  walk is a partial function: \<open>None\<close> is a walk that never ends.
\<close>

partial_function (option) walk_nodes ::
  "addr \<Rightarrow> addr \<Rightarrow> addr \<Rightarrow> addr \<Rightarrow> kstate \<Rightarrow> outcome option" where
  "walk_nodes heapend prev node next s =
     (if node < heapend then
        (case check_node prev node next s of
           Done s1 \<Rightarrow>
             (case deref s1 next of
                Inl e \<Rightarrow> Some (Fault e)
              | Inr x \<Rightarrow> walk_nodes heapend node next (next + size_f x) s1)
         | Fault e \<Rightarrow> Some (Fault e)
         | Return r s1 \<Rightarrow> Some (Return r s1))
      else Some (Done s))"

declare walk_nodes.simps [code]

text \<open>The block executed for one region.\<close>

definition check_region :: "mm_heap_s \<Rightarrow> nat \<Rightarrow> kstate \<Rightarrow> outcome option" where
  "check_region heap region s =
     (let s = take_unless_irq s;
          prev = 0;
          node = mm_heapstart heap region
      in case deref s node of
           Inl e \<Rightarrow> Some (Fault e)
         | Inr n \<Rightarrow>
             (let next = node + size_f n
              in case walk_nodes (mm_heapend heap region) prev node next s of
                   None \<Rightarrow> None
                 | Some (Done s) \<Rightarrow> Some (Done (give_unless_irq s))
                 | Some (Fault e) \<Rightarrow> Some (Fault e)
                 | Some (Return r s) \<Rightarrow> Some (Return r s)))"

text \<open>
  \<^verbatim>\<open>for (region = 0; region < heap->mm_nregions; region++)\<close>, followed by
  \<^verbatim>\<open>return 0\<close>.
\<close>

function check_regions :: "mm_heap_s \<Rightarrow> nat \<Rightarrow> kstate \<Rightarrow> outcome option" where
  "check_regions heap region s =
     (if region < mm_nregions heap then
        (case check_region heap region s of
           None \<Rightarrow> None
         | Some (Done s1) \<Rightarrow> check_regions heap (region + 1) s1
         | Some (Fault e) \<Rightarrow> Some (Fault e)
         | Some (Return r s1) \<Rightarrow> Some (Return r s1))
      else Some (Return 0 s))"
  by pat_completeness auto

termination
  by (relation "measure (\<lambda>(heap, region, s). mm_nregions heap - region)") auto

declare check_regions.simps [simp del]

text \<open>
  \<^verbatim>\<open>DEBUGASSERT(heap)\<close> holds by typing: the heap is passed as a value.
\<close>

definition mm_check_heap_corruption :: "mm_heap_s \<Rightarrow> kstate \<Rightarrow> outcome option" where
  "mm_check_heap_corruption heap s = check_regions heap 0 s"

section \<open>\<open>select\<close> over \<open>poll\<close>\<close>

text \<open>
  Source: \<^verbatim>\<open>os/fs/vfs/fs_select.c\<close>.

  An \<^verbatim>\<open>fd_set\<close> is the set of the descriptors whose bit is set; a pointer to one
  is an option, \<open>None\<close> for \<^verbatim>\<open>NULL\<close>. \<^verbatim>\<open>FD_ISSET\<close> is membership,
  \<^verbatim>\<open>FD_SET\<close> is insertion and \<^verbatim>\<open>memset(set, 0, sizeof(fd_set))\<close> gives the
  empty set. The fixed capacity \<^verbatim>\<open>FD_SETSIZE\<close> of the bit array is not modelled.
\<close>

type_synonym fd_set = "int set"

text \<open>
  Modelled from the spec: \<^verbatim>\<open>struct pollfd\<close>, \<^verbatim>\<open>pollevent_t\<close> and the flags
  \<^verbatim>\<open>POLLIN\<close>, \<^verbatim>\<open>POLLOUT\<close>, \<^verbatim>\<open>POLLERR\<close>, \<^verbatim>\<open>POLLHUP\<close> are declared in
  \<^verbatim>\<open>poll.h\<close>, which is not among the sources; the spec speaks of
  \<open>(descriptor, interest_flags)\<close> pairs and of returned readiness flags. The flags
  are single bits of an 8-bit word here; no theorem below depends on their values.
\<close>

type_synonym pollevent_t = "8 word"

record pollfd =
  fd :: int
  events :: pollevent_t
  revents :: pollevent_t

definition POLLIN :: pollevent_t where "POLLIN = 0x01"

definition POLLOUT :: pollevent_t where "POLLOUT = 0x04"

definition POLLERR :: pollevent_t where "POLLERR = 0x08"

definition POLLHUP :: pollevent_t where "POLLHUP = 0x10"

text \<open>
  Modelled from the spec: \<^verbatim>\<open>struct timeval\<close> is declared in
  \<^verbatim>\<open>sys/time.h\<close>, which is not among the sources. Its fields hold integers; the
  value of the C expression is converted to \<^verbatim>\<open>int\<close>, 32 bits in two's
  complement, when it is assigned to \<^verbatim>\<open>msec\<close>. C division truncates towards
  zero.
\<close>

record timeval =
  tv_sec :: int
  tv_usec :: int

definition to_int32 :: "int \<Rightarrow> int" where
  "to_int32 v = (v + 2 ^ 31) mod 2 ^ 32 - 2 ^ 31"

definition set_timeout :: "timeval option \<Rightarrow> int" where
  "set_timeout timeout =
     (case timeout of
        None \<Rightarrow> - 1
      | Some tv \<Rightarrow> to_int32 (tv_sec tv * 1000 + tv_usec tv sdiv 1000))"

text \<open>\<^verbatim>\<open>set && FD_ISSET(fd, set)\<close>.\<close>

definition isset :: "int \<Rightarrow> fd_set option \<Rightarrow> bool" where
  "isset f fds = (case fds of None \<Rightarrow> False | Some S \<Rightarrow> f \<in> S)"

text \<open>
  The counting loop at the head of \<^verbatim>\<open>select\<close>:
  \<^verbatim>\<open>for (fd = 0, npfds = 0; fd < nfds; fd++)\<close>.
\<close>

function count_loop ::
  "int \<Rightarrow> fd_set option \<Rightarrow> fd_set option \<Rightarrow> fd_set option \<Rightarrow> int \<Rightarrow> nat \<Rightarrow> nat" where
  "count_loop nfds readfds writefds exceptfds f npfds =
     (if f < nfds then
        count_loop nfds readfds writefds exceptfds (f + 1)
          (if isset f readfds \<or> isset f writefds \<or> isset f exceptfds then npfds + 1 else npfds)
      else npfds)"
  by pat_completeness auto

termination
  by (relation "measure (\<lambda>(nfds, r, w, e, f, n). nat (nfds - f))") auto

declare count_loop.simps [simp del]

text \<open>
  \<^verbatim>\<open>pollset[ndx].fd = fd; pollset[ndx].events |= ev;\<close> on an array of
  \<open>length pollset\<close> entries (none when \<^verbatim>\<open>pollset\<close> is \<^verbatim>\<open>NULL\<close>): \<open>None\<close>
  is a write outside the array.
\<close>

definition add_interest :: "nat \<Rightarrow> int \<Rightarrow> pollevent_t \<Rightarrow> pollfd list \<Rightarrow> pollfd list option" where
  "add_interest ndx f ev pollset =
     (if ndx < length pollset
      then Some (pollset[ndx := (pollset ! ndx)\<lparr>fd := f, events := events (pollset ! ndx) OR ev\<rparr>])
      else None)"

text \<open>The body of the loop of \<^verbatim>\<open>_init_desc_list\<close>: the new \<^verbatim>\<open>incr\<close> and array.\<close>

definition init_desc_step ::
  "fd_set option \<Rightarrow> fd_set option \<Rightarrow> fd_set option \<Rightarrow> int \<Rightarrow> nat \<Rightarrow> pollfd list
     \<Rightarrow> (nat \<times> pollfd list) option" where
  "init_desc_step readfds writefds exceptfds f ndx pollset =
     (case (if isset f readfds
            then map_option (Pair 1) (add_interest ndx f POLLIN pollset)
            else Some (0, pollset)) of
        None \<Rightarrow> None
      | Some (incr, pollset) \<Rightarrow>
     (case (if isset f writefds
            then map_option (Pair 1) (add_interest ndx f POLLOUT pollset)
            else Some (incr, pollset)) of
        None \<Rightarrow> None
      | Some (incr, pollset) \<Rightarrow>
          (if isset f exceptfds
           then map_option (Pair 1) (add_interest ndx f POLLERR pollset)
           else Some (incr, pollset))))"

function init_desc_loop ::
  "int \<Rightarrow> fd_set option \<Rightarrow> fd_set option \<Rightarrow> fd_set option \<Rightarrow> int \<Rightarrow> nat \<Rightarrow> pollfd list
     \<Rightarrow> (nat \<times> pollfd list) option" where
  "init_desc_loop nfds readfds writefds exceptfds f ndx pollset =
     (if f < nfds then
        (case init_desc_step readfds writefds exceptfds f ndx pollset of
           None \<Rightarrow> None
         | Some (incr, pollset) \<Rightarrow>
             init_desc_loop nfds readfds writefds exceptfds (f + 1) (ndx + incr) pollset)
      else Some (ndx, pollset))"
  by pat_completeness auto

termination
  by (relation "measure (\<lambda>(nfds, r, w, e, f, n, p). nat (nfds - f))") auto

declare init_desc_loop.simps [simp del]

definition init_desc_list ::
  "int \<Rightarrow> fd_set option \<Rightarrow> fd_set option \<Rightarrow> fd_set option \<Rightarrow> pollfd list
     \<Rightarrow> (nat \<times> pollfd list) option" where
  "init_desc_list nfds readfds writefds exceptfds pollset =
     init_desc_loop nfds readfds writefds exceptfds 0 0 pollset"

definition reset_fds ::
  "fd_set option \<Rightarrow> fd_set option \<Rightarrow> fd_set option
     \<Rightarrow> fd_set option \<times> fd_set option \<times> fd_set option" where
  "reset_fds readfds writefds exceptfds =
     (map_option (\<lambda>_. {}) readfds, map_option (\<lambda>_. {}) writefds, map_option (\<lambda>_. {}) exceptfds)"

text \<open>
  One of the three tests in the loop of \<^verbatim>\<open>_back_desc_list\<close>:
  \<^verbatim>\<open>if (set) { if (revents & flags) { FD_SET(fd, set); ret++; } }\<close>.
\<close>

definition back_one ::
  "pollfd \<Rightarrow> pollevent_t \<Rightarrow> fd_set option \<times> int \<Rightarrow> fd_set option \<times> int" where
  "back_one p flags sr =
     (case fst sr of
        None \<Rightarrow> sr
      | Some S \<Rightarrow> if revents p AND flags \<noteq> 0 then (Some (insert (fd p) S), snd sr + 1) else sr)"

text \<open>
  \<^verbatim>\<open>for (ndx = 0; ndx < npfds; ndx++)\<close> of \<^verbatim>\<open>_back_desc_list\<close>; \<open>None\<close> is a
  read outside the array.
\<close>

function back_desc_loop ::
  "nat \<Rightarrow> pollfd list \<Rightarrow> nat \<Rightarrow> fd_set option \<Rightarrow> fd_set option \<Rightarrow> fd_set option \<Rightarrow> int
     \<Rightarrow> (fd_set option \<times> fd_set option \<times> fd_set option \<times> int) option" where
  "back_desc_loop npfds pollset ndx readfds writefds exceptfds ret =
     (if ndx < npfds then
        (if ndx < length pollset then
           (let p = pollset ! ndx;
                (readfds, ret) = back_one p (POLLIN OR POLLHUP) (readfds, ret);
                (writefds, ret) = back_one p POLLOUT (writefds, ret);
                (exceptfds, ret) = back_one p POLLERR (exceptfds, ret)
            in back_desc_loop npfds pollset (ndx + 1) readfds writefds exceptfds ret)
         else None)
      else Some (readfds, writefds, exceptfds, ret))"
  by pat_completeness auto

termination
  by (relation "measure (\<lambda>(npfds, p, ndx, r, w, e, ret). npfds - ndx)") auto

declare back_desc_loop.simps [simp del]

definition back_desc_list ::
  "nat \<Rightarrow> fd_set option \<Rightarrow> fd_set option \<Rightarrow> fd_set option \<Rightarrow> pollfd list
     \<Rightarrow> (fd_set option \<times> fd_set option \<times> fd_set option \<times> int) option" where
  "back_desc_list npfds readfds writefds exceptfds pollset =
     back_desc_loop npfds pollset 0 readfds writefds exceptfds 0"

subsection \<open>The environment of \<open>select\<close>\<close>

text \<open>
  Modelled from the spec: \<^verbatim>\<open>poll\<close>, \<^verbatim>\<open>kmm_zalloc\<close>, the errno values and
  \<^verbatim>\<open>OK\<close>/\<^verbatim>\<open>ERROR\<close> are not among the sources. \<^verbatim>\<open>poll\<close> is the spec's
  lower-level readiness-polling primitive: given the array and the timeout in
  milliseconds it yields its return value, the readiness flags it stores in
  \<^verbatim>\<open>revents\<close> of each entry, and the errno it leaves on failure; it changes no
  other field of the array. \<^verbatim>\<open>kmm_zalloc\<close> yields zeroed memory or \<^verbatim>\<open>NULL\<close>.
\<close>

datatype errno = ENOMEM | EINVAL | Errno int

definition OK :: int where "OK = 0"

definition ERROR :: int where "ERROR = - 1"

record env =
  kmm_zalloc_ok :: bool
  poll :: "pollfd list \<Rightarrow> int \<Rightarrow> int \<times> (nat \<Rightarrow> pollevent_t) \<times> errno"

definition store_revents :: "(nat \<Rightarrow> pollevent_t) \<Rightarrow> pollfd list \<Rightarrow> pollfd list" where
  "store_revents rv pollset = map (\<lambda>i. (pollset ! i)\<lparr>revents := rv i\<rparr>) [0..<length pollset]"

datatype call =
    ENTER_CANCELLATION_POINT
  | LEAVE_CANCELLATION_POINT
  | KMM_ZALLOC nat
  | KMM_FREE
  | POLL "pollfd list" nat int
  | SET_ERRNO errno

record select_out =
  sel_ret :: int
  sel_readfds :: "fd_set option"
  sel_writefds :: "fd_set option"
  sel_exceptfds :: "fd_set option"
  sel_calls :: "call list"

definition zero_pollfd :: pollfd where
  "zero_pollfd = \<lparr>fd = 0, events = 0, revents = 0\<rparr>"

text \<open>
  \<^verbatim>\<open>select\<close>. The result is \<open>None\<close> when an array access falls outside the
  array. \<^verbatim>\<open>DEBUGASSERT(ndx == npfds)\<close> is followed by the same test in an
  \<^verbatim>\<open>if\<close>, which is the branch modelled. A successful \<^verbatim>\<open>kmm_zalloc\<close> gives
  an array of exactly \<^verbatim>\<open>npfds\<close> zeroed entries. The calls
  \<^verbatim>\<open>select\<close> makes to its environment are recorded in order.
\<close>

definition select ::
  "env \<Rightarrow> int \<Rightarrow> fd_set option \<Rightarrow> fd_set option \<Rightarrow> fd_set option \<Rightarrow> timeval option
     \<Rightarrow> select_out option" where
  "select env nfds readfds writefds exceptfds timeout =
     (let calls = [ENTER_CANCELLATION_POINT];
          npfds = count_loop nfds readfds writefds exceptfds 0 0
      in if npfds > 0 \<and> \<not> kmm_zalloc_ok env then
           Some \<lparr>sel_ret = ERROR, sel_readfds = readfds, sel_writefds = writefds,
             sel_exceptfds = exceptfds,
             sel_calls = calls @ [KMM_ZALLOC npfds, SET_ERRNO ENOMEM, LEAVE_CANCELLATION_POINT]\<rparr>
         else
           let calls = (if npfds > 0 then calls @ [KMM_ZALLOC npfds] else calls);
               pollset = replicate npfds zero_pollfd
           in case init_desc_list nfds readfds writefds exceptfds pollset of
                None \<Rightarrow> None
              | Some (ndx, pollset) \<Rightarrow>
                  if ndx \<noteq> npfds then
                    Some \<lparr>sel_ret = ERROR, sel_readfds = readfds, sel_writefds = writefds,
                      sel_exceptfds = exceptfds, sel_calls = calls @ [SET_ERRNO EINVAL]\<rparr>
                  else
                    let msec = set_timeout timeout;
                        (ret, rv, err) = poll env pollset msec;
                        calls = calls @ [POLL pollset npfds msec];
                        pollset = store_revents rv pollset;
                        errcode = (if ret < 0 then err else Errno OK);
                        (readfds, writefds, exceptfds) = reset_fds readfds writefds exceptfds
                    in case (if ret > 0
                             then back_desc_list npfds readfds writefds exceptfds pollset
                             else Some (readfds, writefds, exceptfds, ret)) of
                         None \<Rightarrow> None
                       | Some (readfds, writefds, exceptfds, ret) \<Rightarrow>
                           let calls = (if npfds > 0 then calls @ [KMM_FREE] else calls);
                               calls = (if ret < 0 then calls @ [SET_ERRNO errcode] else calls)
                           in Some \<lparr>sel_ret = ret, sel_readfds = readfds, sel_writefds = writefds,
                                sel_exceptfds = exceptfds,
                                sel_calls = calls @ [LEAVE_CANCELLATION_POINT]\<rparr>)"

section \<open>Notions for stating the properties of the checker\<close>

text \<open>
  The checker only appends events to the trace. \<open>log_to s es\<close> is the state
  \<open>s\<close> after the events \<open>es\<close>; \<open>take_events\<close> and \<open>give_events\<close> are
  the events of the two guarded semaphore calls.
\<close>

definition log_to :: "kstate \<Rightarrow> event list \<Rightarrow> kstate" where
  "log_to s es = s\<lparr>trace := trace s @ es\<rparr>"

definition give_events :: "kstate \<Rightarrow> event list" where
  "give_events s = (if in_irq s then [] else [GiveSem])"

definition take_events :: "kstate \<Rightarrow> event list" where
  "take_events s = (if in_irq s then [] else [TakeSem])"

text \<open>The semaphore events of a region that passes.\<close>

definition sem_pair :: "kstate \<Rightarrow> event list" where
  "sem_pair s = take_events s @ give_events s"

fun is_dbg :: "event \<Rightarrow> bool" where
  "is_dbg (Dbg f a) = True"
| "is_dbg TakeSem = False"
| "is_dbg GiveSem = False"

abbreviation overflowed_msg :: "addr \<Rightarrow> mm_allocnode_s \<Rightarrow> event" where
  "overflowed_msg a n \<equiv> Dbg FMT_OVERFLOWED [a, size_f n, if IS_ALLOCATED_NODE n then 65 else 70]"

abbreviation corrupted_msg :: "addr \<Rightarrow> mm_allocnode_s \<Rightarrow> event" where
  "corrupted_msg a n \<equiv> Dbg FMT_CORRUPTED [a, size_f n, MM_PREV_NODE_SIZE n]"

text \<open>
  \<open>report_shape tail es\<close>: the events \<open>es\<close> are at least one \<^verbatim>\<open>dbg\<close> message
  followed by \<open>tail\<close>. \<open>reported s s'\<close>: the state \<open>s'\<close> is \<open>s\<close> after a report
  and the guarded release of the semaphore.
\<close>

definition report_shape :: "event list \<Rightarrow> event list \<Rightarrow> bool" where
  "report_shape tail es = (\<exists>ds. ds \<noteq> [] \<and> list_all is_dbg ds \<and> es = ds @ tail)"

definition reported :: "kstate \<Rightarrow> kstate \<Rightarrow> bool" where
  "reported s s' = (\<exists>es. report_shape (give_events s) es \<and> s' = log_to s es)"

text \<open>What a run returned, and the format strings it logged.\<close>

fun return_code :: "outcome option \<Rightarrow> int option" where
  "return_code (Some (Return r s)) = Some r"
| "return_code _ = None"

fun fmt_of :: "event \<Rightarrow> string list" where
  "fmt_of (Dbg f a) = [f]"
| "fmt_of _ = []"

fun logged :: "outcome option \<Rightarrow> string list" where
  "logged (Some (Return r s)) = concat (map fmt_of (trace s))"
| "logged _ = []"

text \<open>
  The invariants in the spec's words. \<open>node_chain m a e ns\<close>: the traversal that
  starts at \<open>a\<close> and advances by \<^verbatim>\<open>size\<close> bytes visits exactly the nodes
  \<open>ns\<close>, all below \<open>e\<close>, and then reaches the end sentinel \<open>e\<close>.
  \<open>boundary_ok m A B\<close>: \<^verbatim>\<open>A.size == (B.preceding & ~ALLOC_BIT)\<close>.
  \<open>free_list_ok m F\<close>: if \<open>F\<close> is free, \<^verbatim>\<open>F.backward.forward == F\<close> and
  \<^verbatim>\<open>F.forward.backward == F\<close>, unless the pointer is the list terminator.
\<close>

fun node_chain :: "memory \<Rightarrow> addr \<Rightarrow> addr \<Rightarrow> addr list \<Rightarrow> bool" where
  "node_chain m a e [] = (a = e \<and> node_at m e \<noteq> None)"
| "node_chain m a e (x # xs) =
     (x = a \<and> a < e \<and>
      (case node_at m a of None \<Rightarrow> False | Some n \<Rightarrow> node_chain m (a + size_f n) e xs))"

definition boundary_ok :: "memory \<Rightarrow> addr \<Rightarrow> addr \<Rightarrow> bool" where
  "boundary_ok m A B =
     (case node_at m A of
        None \<Rightarrow> False
      | Some a \<Rightarrow>
          (case node_at m B of None \<Rightarrow> False | Some b \<Rightarrow> size_f a = MM_PREV_NODE_SIZE b))"

fun adjacent_ok :: "memory \<Rightarrow> addr list \<Rightarrow> bool" where
  "adjacent_ok m (A # B # rest) = (boundary_ok m A B \<and> adjacent_ok m (B # rest))"
| "adjacent_ok m [A] = True"
| "adjacent_ok m [] = True"

definition free_list_ok :: "memory \<Rightarrow> addr \<Rightarrow> bool" where
  "free_list_ok m F =
     (case node_at m F of
        None \<Rightarrow> False
      | Some f \<Rightarrow>
          IS_FREE_NODE f \<longrightarrow>
            (blink f = 0 \<or> (case node_at m (blink f) of None \<Rightarrow> False | Some b \<Rightarrow> flink b = F)) \<and>
            (flink f = 0 \<or> (case node_at m (flink f) of None \<Rightarrow> False | Some x \<Rightarrow> blink x = F)))"

definition region_ok :: "memory \<Rightarrow> addr \<Rightarrow> addr \<Rightarrow> addr list \<Rightarrow> bool" where
  "region_ok m a e ns =
     (node_chain m a e ns \<and> adjacent_ok m (ns @ [e]) \<and> list_all (free_list_ok m) ns)"

text \<open>\<open>nodes r\<close> lists the nodes of region \<open>r\<close> in address order.\<close>

definition heap_ok :: "mm_heap_s \<Rightarrow> memory \<Rightarrow> (nat \<Rightarrow> addr list) \<Rightarrow> bool" where
  "heap_ok heap m nodes =
     (\<forall>r < mm_nregions heap. region_ok m (mm_heapstart heap r) (mm_heapend heap r) (nodes r))"

text \<open>
  Running the checker \<open>n\<close> times in a row, each run on the state the previous one
  left: the list of the return values, or \<open>None\<close> when a run does not return.
\<close>

fun check_repeatedly :: "nat \<Rightarrow> mm_heap_s \<Rightarrow> kstate \<Rightarrow> int list option" where
  "check_repeatedly 0 heap s = Some []"
| "check_repeatedly (Suc n) heap s =
     (case mm_check_heap_corruption heap s of
        Some (Return r s1) \<Rightarrow> map_option ((#) r) (check_repeatedly n heap s1)
      | _ \<Rightarrow> None)"

text \<open>
  \<open>reaches_end m a e k\<close>: advancing \<open>k\<close> times by \<^verbatim>\<open>size\<close> from \<open>a\<close> arrives
  at \<open>e\<close>, through nodes whose size is strictly positive.
\<close>

fun reaches_end :: "memory \<Rightarrow> addr \<Rightarrow> addr \<Rightarrow> nat \<Rightarrow> bool" where
  "reaches_end m a e 0 = (a = e)"
| "reaches_end m a e (Suc k) =
     (case node_at m a of
        None \<Rightarrow> False
      | Some n \<Rightarrow> 0 < size_f n \<and> reaches_end m (a + size_f n) e k)"

section \<open>Notions for stating the properties of \<open>select\<close>\<close>

text \<open>
  The descriptors below \<open>nfds\<close> that are in at least one of the sets, in
  increasing order, and the array entry that \<^verbatim>\<open>_init_desc_list\<close> builds for one.
\<close>

definition watched_fd :: "fd_set option \<Rightarrow> fd_set option \<Rightarrow> fd_set option \<Rightarrow> int \<Rightarrow> bool" where
  "watched_fd readfds writefds exceptfds f =
     (isset f readfds \<or> isset f writefds \<or> isset f exceptfds)"

definition watched :: "int \<Rightarrow> fd_set option \<Rightarrow> fd_set option \<Rightarrow> fd_set option \<Rightarrow> int list" where
  "watched nfds readfds writefds exceptfds =
     filter (watched_fd readfds writefds exceptfds) [0..nfds - 1]"

definition interest :: "fd_set option \<Rightarrow> fd_set option \<Rightarrow> fd_set option \<Rightarrow> int \<Rightarrow> pollfd" where
  "interest readfds writefds exceptfds f =
     \<lparr>fd = f,
      events = (if isset f readfds then POLLIN else 0) OR
               (if isset f writefds then POLLOUT else 0) OR
               (if isset f exceptfds then POLLERR else 0),
      revents = 0\<rparr>"

text \<open>
  \<open>ready ws rv P\<close>: the descriptors of \<open>ws\<close> whose returned readiness flags
  satisfy \<open>P\<close>, where \<open>rv i\<close> are the flags returned for the \<open>i\<close>-th descriptor.
  \<open>members\<close> counts the descriptors set in a set (none for \<^verbatim>\<open>NULL\<close>).
\<close>

definition ready :: "int list \<Rightarrow> (nat \<Rightarrow> pollevent_t) \<Rightarrow> (pollevent_t \<Rightarrow> bool) \<Rightarrow> int list" where
  "ready ws rv P = map (nth ws) (filter (\<lambda>i. P (rv i)) [0..<length ws])"

fun members :: "fd_set option \<Rightarrow> nat" where
  "members None = 0"
| "members (Some S) = card S"

text \<open>
  For the loop of \<^verbatim>\<open>_back_desc_list\<close>: the descriptors of the entries whose
  \<^verbatim>\<open>revents\<close> meet \<open>flags\<close>, their insertion into a set and their count, both
  only for a non-null set.
\<close>

definition hits :: "pollevent_t \<Rightarrow> pollfd list \<Rightarrow> int list" where
  "hits flags ps = map fd (filter (\<lambda>p. revents p AND flags \<noteq> 0) ps)"

definition add_hits :: "fd_set option \<Rightarrow> int list \<Rightarrow> fd_set option" where
  "add_hits S xs = map_option (\<lambda>A. A \<union> set xs) S"

definition count_hits :: "fd_set option \<Rightarrow> int list \<Rightarrow> int" where
  "count_hits S xs = (if S = None then 0 else int (length xs))"



section \<open>Concrete heaps\<close>

text \<open>
  One region from \<open>0x1000\<close> to \<open>0x1030\<close>: the head sentinel at \<open>0x1000\<close>, an
  allocated node at \<open>0x1010\<close>, a free node at \<open>0x1020\<close> and the tail sentinel at
  \<open>0x1030\<close>, each 16 bytes. The free node is the only member of a free list whose
  head is the node at \<open>0x2000\<close>, outside the region.
\<close>

definition demo_heap :: mm_heap_s where
  "demo_heap = \<lparr>mm_nregions = 1, mm_heapstart = (\<lambda>_. 0x1000), mm_heapend = (\<lambda>_. 0x1030)\<rparr>"

definition demo_mem :: memory where
  "demo_mem = [
     0x1000 \<mapsto> \<lparr>size_f = 0x10, preceding = 0x80000000, flink = 0, blink = 0\<rparr>,
     0x1010 \<mapsto> \<lparr>size_f = 0x10, preceding = 0x80000010, flink = 0, blink = 0\<rparr>,
     0x1020 \<mapsto> \<lparr>size_f = 0x10, preceding = 0x10, flink = 0, blink = 0x2000\<rparr>,
     0x1030 \<mapsto> \<lparr>size_f = 0x10, preceding = 0x80000010, flink = 0, blink = 0\<rparr>,
     0x2000 \<mapsto> \<lparr>size_f = 0, preceding = 0, flink = 0x1020, blink = 0\<rparr>]"

definition demo_state :: "memory \<Rightarrow> bool \<Rightarrow> kstate" where
  "demo_state m irq = \<lparr>mem = m, in_irq = irq, trace = []\<rparr>"

text \<open>The tail sentinel records 24 as the size of the free node before it.\<close>

definition mem_bad_boundary :: memory where
  "mem_bad_boundary = demo_mem
     (0x1030 \<mapsto> \<lparr>size_f = 0x10, preceding = 0x80000018, flink = 0, blink = 0\<rparr>)"

text \<open>The list head points forward to \<open>0x1010\<close>, not to the free node.\<close>

definition mem_bad_blink :: memory where
  "mem_bad_blink = demo_mem
     (0x2000 \<mapsto> \<lparr>size_f = 0, preceding = 0, flink = 0x1010, blink = 0\<rparr>)"

text \<open>
  The free node points forward to a node at \<open>0x2010\<close> that points back to
  \<open>0x1010\<close>.
\<close>

definition mem_bad_flink :: memory where
  "mem_bad_flink = demo_mem
     (0x1020 \<mapsto> \<lparr>size_f = 0x10, preceding = 0x10, flink = 0x2010, blink = 0x2000\<rparr>,
      0x2010 \<mapsto> \<lparr>size_f = 0, preceding = 0, flink = 0, blink = 0x1010\<rparr>)"

text \<open>
  The node after the head sentinel records 24 as the sentinel's size: the
  violation is at the first node of the region.
\<close>

definition mem_bad_first :: memory where
  "mem_bad_first = demo_mem
     (0x1010 \<mapsto> \<lparr>size_f = 0x10, preceding = 0x80000018, flink = 0, blink = 0\<rparr>)"

text \<open>
  The free node at \<open>0x1020\<close> has a broken backward link (the list head points
  forward to \<open>0x1010\<close>), and the tail sentinel records 24 as its size.
\<close>

definition mem_bad_both :: memory where
  "mem_bad_both = mem_bad_boundary
     (0x2000 \<mapsto> \<lparr>size_f = 0, preceding = 0, flink = 0x1010, blink = 0\<rparr>)"

text \<open>
  A region whose first node has size 0 and records 0 as the size of the node before
  it: advancing by \<^verbatim>\<open>size\<close> stays at \<open>0x1000\<close>.
\<close>

definition mem_zero_size :: memory where
  "mem_zero_size = demo_mem
     (0x1000 \<mapsto> \<lparr>size_f = 0, preceding = 0x80000000, flink = 0, blink = 0\<rparr>)"

definition bad_boundary_final :: kstate where
  "bad_boundary_final = \<lparr>mem = mem_bad_boundary, in_irq = False,
     trace = [TakeSem, Dbg HASH_LINE [], Dbg ERR_NODE_DOT [],
       Dbg EQ_LINE [], Dbg SCENARIO_1 [], Dbg EQ_LINE [],
       Dbg FMT_OVERFLOWED [0x1010, 0x10, 65], Dbg FMT_CORRUPTED [0x1020, 0x10, 0x10],
       Dbg EQ_LINE [], Dbg SCENARIO_2 [], Dbg EQ_LINE [],
       Dbg FMT_OVERFLOWED [0x1020, 0x10, 70], Dbg FMT_CORRUPTED [0x1030, 0x10, 0x18],
       Dbg HASH_LINE [], GiveSem]\<rparr>"



section \<open>A concrete call of \<open>select\<close>\<close>

text \<open>
  Descriptors 1 and 3 are watched for reading and 3 for writing, with no exception
  set and a timeout of 2.5 seconds; \<^verbatim>\<open>poll\<close> reports \<^verbatim>\<open>POLLIN\<close> for the first
  entry and \<^verbatim>\<open>POLLHUP\<close> for the second.
\<close>

definition demo_env :: env where
  "demo_env = \<lparr>kmm_zalloc_ok = True,
     poll = (\<lambda>ps msec. (1, (\<lambda>i. if i = 0 then POLLIN else POLLHUP), Errno 0))\<rparr>"

definition demo_timeout :: timeval where
  "demo_timeout = \<lparr>tv_sec = 2, tv_usec = 500000\<rparr>"


definition demo_select_out :: select_out where
  "demo_select_out =
     \<lparr>sel_ret = 2, sel_readfds = Some {1, 3}, sel_writefds = Some {}, sel_exceptfds = None,
      sel_calls = [ENTER_CANCELLATION_POINT, KMM_ZALLOC 2,
        POLL [\<lparr>fd = 1, events = POLLIN, revents = 0\<rparr>,
              \<lparr>fd = 3, events = POLLIN OR POLLOUT, revents = 0\<rparr>] 2 2500,
        KMM_FREE, LEAVE_CANCELLATION_POINT]\<rparr>"

section \<open>Properties of \<open>mm_check_heap_corruption\<close>\<close>

subsection \<open>What the checker does to the state\<close>

lemma log_to_simps [simp]:
  "mem (log_to s es) = mem s"
  "in_irq (log_to s es) = in_irq s"
  "trace (log_to s es) = trace s @ es"
  "log_to (log_to s es) fs = log_to s (es @ fs)"
  "deref (log_to s es) p = deref s p"
  "give_events (log_to s es) = give_events s"
  "take_events (log_to s es) = take_events s"
  by (simp_all add: log_to_def deref_def give_events_def take_events_def)

lemma log_to_Nil [simp]: "log_to s [] = s"
  by (simp add: log_to_def)

lemma dbg_log_to: "dbg f a s = log_to s [Dbg f a]"
  by (simp add: dbg_def log_to_def)

lemma give_log_to: "give_unless_irq s = log_to s (give_events s)"
  by (simp add: give_unless_irq_def mm_givesemaphore_def log_to_def give_events_def)

lemma take_log_to: "take_unless_irq s = log_to s (take_events s)"
  by (simp add: take_unless_irq_def mm_takesemaphore_def log_to_def take_events_def)

lemma dump_pair_eq:
  "dump_pair a b s =
     (case deref s a of Inl e \<Rightarrow> Inl e
      | Inr x \<Rightarrow> (case deref s b of Inl e \<Rightarrow> Inl e
          | Inr y \<Rightarrow> Inr (log_to s [overflowed_msg a x, corrupted_msg b y])))"
  by (simp add: dump_pair_def dbg_log_to split: sum.splits)

lemma report_prev_eq:
  "report_prev prev node s =
     (case deref s prev of Inl e \<Rightarrow> Fault e
      | Inr p \<Rightarrow> (case deref s node of Inl e \<Rightarrow> Fault e
          | Inr n \<Rightarrow> Return (- 1) (log_to s ([Dbg HASH_LINE [], Dbg ERR_NODE [],
               overflowed_msg prev p, corrupted_msg node n, Dbg HASH_LINE []] @ give_events s))))"
  by (simp add: report_prev_def and_then_def dump_pair_eq dbg_log_to give_log_to split: sum.splits)

lemma report_next_eq:
  "report_next prev node next s =
     (case deref s prev of Inl e \<Rightarrow> Fault e
      | Inr p \<Rightarrow> (case deref s node of Inl e \<Rightarrow> Fault e
          | Inr n \<Rightarrow> (case deref s next of Inl e \<Rightarrow> Fault e
             | Inr x \<Rightarrow> Return (- 1) (log_to s ([Dbg HASH_LINE [], Dbg ERR_NODE_DOT [],
                 Dbg EQ_LINE [], Dbg SCENARIO_1 [], Dbg EQ_LINE [],
                 overflowed_msg prev p, corrupted_msg node n,
                 Dbg EQ_LINE [], Dbg SCENARIO_2 [], Dbg EQ_LINE [],
                 overflowed_msg node n, corrupted_msg next x,
                 Dbg HASH_LINE []] @ give_events s)))))"
  by (simp add: report_next_def and_then_def dump_pair_eq dbg_log_to give_log_to split: sum.splits)

lemma report_blink_eq:
  "report_blink prev node s =
     (case deref s prev of Inl e \<Rightarrow> Fault e
      | Inr p \<Rightarrow> (case deref s node of Inl e \<Rightarrow> Fault e
          | Inr n \<Rightarrow> (case deref s (blink n) of Inl e \<Rightarrow> Fault e
             | Inr b \<Rightarrow> Return (- 1) (log_to s ([Dbg HASH_LINE [], Dbg ERR_FREE_LIST [],
                 overflowed_msg prev p, corrupted_msg node n,
                 Dbg FMT_BLINK [blink n, flink b],
                 Dbg HASH_LINE []] @ give_events s)))))"
  by (simp add: report_blink_def and_then_def dump_pair_eq dbg_log_to give_log_to split: sum.splits)

lemma report_flink_eq:
  "report_flink prev node s =
     (case deref s prev of Inl e \<Rightarrow> Fault e
      | Inr p \<Rightarrow> (case deref s node of Inl e \<Rightarrow> Fault e
          | Inr n \<Rightarrow> (case deref s (flink n) of Inl e \<Rightarrow> Fault e
             | Inr f \<Rightarrow> Return (- 1) (log_to s ([Dbg HASH_LINE [], Dbg ERR_FREE_LIST [],
                 overflowed_msg prev p, corrupted_msg node n,
                 Dbg FMT_FLINK [flink n, blink f],
                 Dbg HASH_LINE []] @ give_events s)))))"
  by (simp add: report_flink_def and_then_def dump_pair_eq dbg_log_to give_log_to split: sum.splits)

lemma report_shape_one: "is_dbg d \<Longrightarrow> report_shape tail (d # tail)"
  unfolding report_shape_def by (rule exI[of _ "[d]"]) simp

lemma report_shape_Cons: "is_dbg d \<Longrightarrow> report_shape tail es \<Longrightarrow> report_shape tail (d # es)"
  unfolding report_shape_def
proof -
  assume d: "is_dbg d" and "\<exists>ds. ds \<noteq> [] \<and> list_all is_dbg ds \<and> es = ds @ tail"
  then obtain ds where "ds \<noteq> []" "list_all is_dbg ds" "es = ds @ tail" by blast
  with d have "d # ds \<noteq> [] \<and> list_all is_dbg (d # ds) \<and> d # es = (d # ds) @ tail" by simp
  then show "\<exists>ds. ds \<noteq> [] \<and> list_all is_dbg ds \<and> d # es = ds @ tail" by blast
qed

lemma reportedI: "report_shape (give_events s) es \<Longrightarrow> reported s (log_to s es)"
  unfolding reported_def by blast

lemmas report_intros = reportedI report_shape_Cons report_shape_one

lemma report_prev_Return: "report_prev prev node s = Return r s' \<Longrightarrow> r = - 1 \<and> reported s s'"
  unfolding report_prev_eq
  by (auto split: sum.splits intro!: report_intros)

lemma report_next_Return: "report_next prev node next s = Return r s' \<Longrightarrow> r = - 1 \<and> reported s s'"
  unfolding report_next_eq
  by (auto split: sum.splits intro!: report_intros)

lemma report_blink_Return: "report_blink prev node s = Return r s' \<Longrightarrow> r = - 1 \<and> reported s s'"
  unfolding report_blink_eq
  by (auto split: sum.splits intro!: report_intros)

lemma report_flink_Return: "report_flink prev node s = Return r s' \<Longrightarrow> r = - 1 \<and> reported s s'"
  unfolding report_flink_eq
  by (auto split: sum.splits intro!: report_intros)

lemma report_not_Done [simp]:
  "report_prev prev node s \<noteq> Done s'"
  "report_next prev node next s \<noteq> Done s'"
  "report_blink prev node s \<noteq> Done s'"
  "report_flink prev node s \<noteq> Done s'"
  by (simp_all add: report_prev_eq report_next_eq report_blink_eq report_flink_eq split: sum.splits)

lemma check_node_Done: "check_node prev node next s = Done s' \<Longrightarrow> s' = s"
  by (auto simp: check_node_def branch_def split: sum.splits if_splits)

lemma check_node_Return:
  "check_node prev node next s = Return r s' \<Longrightarrow> r = - 1 \<and> reported s s'"
  by (auto simp: check_node_def branch_def split: sum.splits if_splits
      dest: report_prev_Return report_next_Return report_blink_Return report_flink_Return)

lemma walk_nodes_effect:
  "walk_nodes heapend prev node next s = Some out \<Longrightarrow>
     (case out of Done s' \<Rightarrow> s' = s | Return r s' \<Rightarrow> r = - 1 \<and> reported s s' | Fault e \<Rightarrow> True)"
proof (induction heapend prev node "next" s out rule: walk_nodes.raw_induct[rotated, consumes 1])
  case (1 walk heapend prev node "next" s out)
  show ?case
  proof (cases "node < heapend")
    case False
    with 1(2) show ?thesis by auto
  next
    case True
    show ?thesis
    proof (cases "check_node prev node next s")
      case (Fault e)
      with True 1(2) show ?thesis by auto
    next
      case (Return r s1)
      with True 1(2) check_node_Return[OF Return] show ?thesis by auto
    next
      case (Done s1)
      then have s1: "s1 = s" by (rule check_node_Done)
      show ?thesis
      proof (cases "deref s next")
        case (Inl e)
        with True Done s1 1(2) show ?thesis by auto
      next
        case (Inr x)
        from True Done[unfolded s1] Inr 1(2) have "walk heapend node next (next + size_f x) s = Some out"
          by simp
        then show ?thesis by (rule 1(1))
      qed
    qed
  qed
qed

lemma sem_pair_log_to [simp]: "sem_pair (log_to s es) = sem_pair s"
  by (simp add: sem_pair_def)

lemma check_region_effect:
  "check_region heap region s = Some out \<Longrightarrow>
     (case out of
        Done s' \<Rightarrow> s' = log_to s (sem_pair s)
      | Return r s' \<Rightarrow> r = - 1 \<and>
          (\<exists>es. report_shape (give_events s) es \<and> s' = log_to s (take_events s @ es))
      | Fault e \<Rightarrow> True)"
  unfolding check_region_def Let_def take_log_to give_log_to
  by (auto split: sum.splits option.splits outcome.splits
      dest!: walk_nodes_effect simp: reported_def sem_pair_def)

lemma check_regions_effect:
  "check_regions heap region s = Some out \<Longrightarrow>
     (case out of
        Done s' \<Rightarrow> False
      | Return r s' \<Rightarrow>
          (r = 0 \<and> s' = log_to s (concat (replicate (mm_nregions heap - region) (sem_pair s))))
          \<or> (r = - 1 \<and> (\<exists>k es. region + k < mm_nregions heap \<and>
                 report_shape (give_events s) es \<and>
                 s' = log_to s (concat (replicate k (sem_pair s)) @ take_events s @ es)))
      | Fault e \<Rightarrow> True)"
proof (induction heap region s arbitrary: out rule: check_regions.induct)
  case (1 heap region s)
  show ?case
  proof (cases "region < mm_nregions heap")
    case False
    with 1(2) show ?thesis
      by (auto simp: check_regions.simps)
  next
    case True
    from 1(2) True obtain o1 where o1: "check_region heap region s = Some o1"
      by (auto simp: check_regions.simps[of heap region] split: option.splits)
    show ?thesis
    proof (cases o1)
      case (Fault e)
      with 1(2) True o1 show ?thesis
        by (auto simp: check_regions.simps[of heap region])
    next
      case (Return r s1)
      with 1(2) True o1 have out: "out = Return r s1"
        by (auto simp: check_regions.simps[of heap region])
      from check_region_effect[OF o1] Return
      obtain es where "r = - 1" "report_shape (give_events s) es"
        "s1 = log_to s (take_events s @ es)"
        by auto
      with True out show ?thesis
        by (auto intro!: exI[of _ "0::nat"])
    next
      case (Done s1)
      with check_region_effect[OF o1] have s1: "s1 = log_to s (sem_pair s)"
        by simp
      from 1(2) True o1 Done have rest: "check_regions heap (region + 1) s1 = Some out"
        by (simp add: check_regions.simps[of heap region])
      from 1(1)[OF True o1 Done rest] show ?thesis
      proof (cases out)
        case (Return r s')
        with \<open>case out of Fault e \<Rightarrow> True | Return r s' \<Rightarrow> _ r s' | Done s' \<Rightarrow> False\<close>
        consider (ok) "r = 0"
            "s' = log_to s1 (concat (replicate (mm_nregions heap - (region + 1)) (sem_pair s1)))"
          | (bad) k es where "r = - 1" "region + 1 + k < mm_nregions heap"
            "report_shape (give_events s1) es"
            "s' = log_to s1 (concat (replicate k (sem_pair s1)) @ take_events s1 @ es)"
          by auto
        then show ?thesis
        proof cases
          case ok
          from True have "mm_nregions heap - region = Suc (mm_nregions heap - (region + 1))"
            by simp
          with ok Return s1 show ?thesis by simp
        next
          case bad
          with Return s1 show ?thesis
            by (auto intro!: exI[of _ "Suc k"])
        qed
      qed auto
    qed
  qed
qed

lemma mm_check_effect:
  assumes "mm_check_heap_corruption heap s = Some (Return r s')"
  shows "(r = 0 \<and> s' = log_to s (concat (replicate (mm_nregions heap) (sem_pair s))))
       \<or> (r = - 1 \<and> (\<exists>k es. k < mm_nregions heap \<and> report_shape (give_events s) es \<and>
              s' = log_to s (concat (replicate k (sem_pair s)) @ take_events s @ es)))"
  using check_regions_effect[OF assms[unfolded mm_check_heap_corruption_def]] by simp

lemma mm_check_not_Done: "mm_check_heap_corruption heap s \<noteq> Some (Done s')"
  using check_regions_effect[of heap 0 s "Done s'"]
  by (auto simp: mm_check_heap_corruption_def)

subsection \<open>Runs on the concrete heaps\<close>

lemmas run_simps =
  mm_check_heap_corruption_def check_regions.simps check_region_def walk_nodes.simps
  check_node_def branch_def prev_mismatch_def next_mismatch_def node_is_free_def
  blink_mismatch_def flink_mismatch_def
  report_prev_eq report_next_eq report_blink_eq report_flink_eq
  take_log_to give_log_to take_events_def give_events_def log_to_def
  deref_def node_at_def
  MM_PREV_NODE_SIZE_def IS_FREE_NODE_def IS_ALLOCATED_NODE_def MM_ALLOC_BIT_def





subsection \<open>The return value\<close>

lemma filter_dbg_sem_pairs [simp]: "filter is_dbg (concat (replicate k (sem_pair s))) = []"
  by (induction k) (simp_all add: sem_pair_def take_events_def give_events_def)

lemma filter_dbg_take [simp]: "filter is_dbg (take_events s) = []"
  by (simp add: take_events_def)

lemma filter_dbg_give [simp]: "filter is_dbg (give_events s) = []"
  by (simp add: give_events_def)





subsection \<open>Faults\<close>

text \<open>
  C2 (the code at the failing input). The heap \<open>mem_bad_first\<close> has its boundary
  violation at the first node of the region, where \<^verbatim>\<open>prev\<close> is still
  \<^verbatim>\<open>NULL\<close>. The second branch of the loop body calls
  \<^verbatim>\<open>dump_node(prev, TYPE_OVERFLOWED)\<close>, which reads \<^verbatim>\<open>prev->size\<close>: the run
  ends in a fault at address 0 and returns no result code. The first branch guards
  the same pointer with \<^verbatim>\<open>prev &&\<close>.
\<close>

theorem first_node_violation_faults:
  "mm_check_heap_corruption demo_heap (demo_state mem_bad_first irq) = Some (Fault (SEGV 0))"
  by (simp add: demo_heap_def demo_state_def mem_bad_first_def demo_mem_def run_simps)

text \<open>
  The same holds on every heap: the three reports that pass \<^verbatim>\<open>prev\<close> to
  \<^verbatim>\<open>dump_node\<close> without a test fault when \<^verbatim>\<open>prev\<close> is \<^verbatim>\<open>NULL\<close>, so the
  walk of a region faults whenever its first node fails the check against the node
  after it.
\<close>

lemma deref_NULL: "deref s 0 = Inl (SEGV 0)"
  by (simp add: deref_def node_at_def)

lemma report_without_prev_faults:
  "report_next 0 node next s = Fault (SEGV 0)"
  "report_blink 0 node s = Fault (SEGV 0)"
  "report_flink 0 node s = Fault (SEGV 0)"
  by (simp_all add: report_next_eq report_blink_eq report_flink_eq deref_NULL)

lemma first_node_mismatch_faults:
  assumes "mm_heapstart heap region < mm_heapend heap region"
    and "node_at (mem s) (mm_heapstart heap region) = Some n"
    and "node_at (mem s) (mm_heapstart heap region + size_f n) = Some x"
    and "size_f n \<noteq> MM_PREV_NODE_SIZE x"
  shows "check_region heap region s = Some (Fault (SEGV 0))"
proof -
  let ?s = "take_unless_irq s"
  let ?a = "mm_heapstart heap region"
  from assms(2,3) have d: "deref ?s ?a = Inr n" "deref ?s (?a + size_f n) = Inr x"
    by (simp_all add: deref_def take_log_to)
  with assms(4) have "check_node 0 ?a (?a + size_f n) ?s = Fault (SEGV 0)"
    by (simp add: check_node_def branch_def prev_mismatch_def next_mismatch_def
        report_without_prev_faults)
  with assms(1) have "walk_nodes (mm_heapend heap region) 0 ?a (?a + size_f n) ?s =
      Some (Fault (SEGV 0))"
    by (subst walk_nodes.simps) simp
  with d show ?thesis
    by (simp add: check_region_def)
qed

text \<open>The part of C2 that holds: a run that returns has not changed the memory.\<close>

lemma mm_check_reads_only:
  assumes "mm_check_heap_corruption heap s = Some (Return r s')"
  shows "mem s' = mem s \<and> in_irq s' = in_irq s"
  using mm_check_effect[OF assms] by auto

subsection \<open>The semaphore\<close>

lemma concat_replicate_Nil [simp]: "concat (replicate k ([] :: 'a list)) = []"
  by (induction k) simp_all



subsection \<open>A heap that satisfies the invariants\<close>

lemma walk_nodes_stop: "\<not> node < heapend \<Longrightarrow> walk_nodes heapend prev node next s = Some (Done s)"
  by (subst walk_nodes.simps) simp

lemma walk_nodes_step:
  "node < heapend \<Longrightarrow> check_node prev node next s = Done s \<Longrightarrow> deref s next = Inr x \<Longrightarrow>
     walk_nodes heapend prev node next s = walk_nodes heapend node next (next + size_f x) s"
  by (subst walk_nodes.simps) simp

lemma walk_nodes_return:
  "node < heapend \<Longrightarrow> check_node prev node next s = Return r s' \<Longrightarrow>
     walk_nodes heapend prev node next s = Some (Return r s')"
  by (subst walk_nodes.simps) simp

lemma check_node_ok:
  assumes "prev = 0 \<or> boundary_ok (mem s) prev node"
    and "boundary_ok (mem s) node next"
    and "free_list_ok (mem s) node"
  shows "check_node prev node next s = Done s"
  using assms
  by (auto simp: check_node_def branch_def prev_mismatch_def next_mismatch_def
      node_is_free_def blink_mismatch_def flink_mismatch_def deref_def
      boundary_ok_def free_list_ok_def
      split: option.splits)

lemma node_chain_hd: "node_chain m a e ns \<Longrightarrow> hd (ns @ [e]) = a"
  by (cases ns) auto

lemma adjacent_ok_Cons:
  "adjacent_ok m (a # ns) \<Longrightarrow> ns \<noteq> [] \<Longrightarrow> boundary_ok m a (hd ns) \<and> adjacent_ok m ns"
  by (cases ns) auto

lemma walk_nodes_ok:
  assumes "node_chain (mem s) node e ns"
    and "adjacent_ok (mem s) (ns @ [e])"
    and "list_all (free_list_ok (mem s)) ns"
    and "prev = 0 \<or> boundary_ok (mem s) prev node"
    and "node_at (mem s) node = Some n"
    and "next = node + size_f n"
  shows "walk_nodes e prev node next s = Some (Done s)"
  using assms
proof (induction ns arbitrary: prev node n "next")
  case Nil
  then show ?case by (simp add: walk_nodes_stop)
next
  case (Cons x xs)
  from Cons.prems(1,5,6) have x: "x = node" and lt: "node < e"
    and chain: "node_chain (mem s) next e xs"
    by auto
  from Cons.prems(2) x have "boundary_ok (mem s) node (hd (xs @ [e])) \<and> adjacent_ok (mem s) (xs @ [e])"
    using adjacent_ok_Cons[of "mem s" node "xs @ [e]"] by simp
  with node_chain_hd[OF chain] have b: "boundary_ok (mem s) node next"
    and adj: "adjacent_ok (mem s) (xs @ [e])"
    by simp_all
  from b obtain y where y: "node_at (mem s) next = Some y"
    by (auto simp: boundary_ok_def split: option.splits)
  then have d: "deref s next = Inr y" by (simp add: deref_def)
  from Cons.prems(3) x have fl: "free_list_ok (mem s) node" and fls: "list_all (free_list_ok (mem s)) xs"
    by simp_all
  have c: "check_node prev node next s = Done s"
    using Cons.prems(4) b fl by (rule check_node_ok)
  from lt c d have "walk_nodes e prev node next s = walk_nodes e node next (next + size_f y) s"
    by (rule walk_nodes_step)
  also have "\<dots> = Some (Done s)"
    using chain adj fls _ y refl
  proof (rule Cons.IH)
    show "node = 0 \<or> boundary_ok (mem s) node next" using b by simp
  qed
  finally show ?case .
qed

lemma check_region_ok:
  assumes "region_ok (mem s) (mm_heapstart heap region) (mm_heapend heap region) ns"
  shows "check_region heap region s = Some (Done (log_to s (sem_pair s)))"
proof -
  let ?s = "log_to s (take_events s)"
  let ?a = "mm_heapstart heap region"
  from assms have chain: "node_chain (mem ?s) ?a (mm_heapend heap region) ns"
    and adj: "adjacent_ok (mem ?s) (ns @ [mm_heapend heap region])"
    and fl: "list_all (free_list_ok (mem ?s)) ns"
    by (simp_all add: region_ok_def)
  from chain obtain n where n: "node_at (mem ?s) ?a = Some n"
    by (cases ns) (auto split: option.splits)
  have "walk_nodes (mm_heapend heap region) 0 ?a (?a + size_f n) ?s = Some (Done ?s)"
    using chain adj fl _ n refl by (rule walk_nodes_ok) simp
  with n show ?thesis
    by (simp add: check_region_def take_log_to give_log_to deref_def sem_pair_def)
qed

lemma check_regions_ok:
  assumes "heap_ok heap (mem s) nodes"
  shows "check_regions heap region s =
           Some (Return 0 (log_to s (concat (replicate (mm_nregions heap - region) (sem_pair s)))))"
  using assms
proof (induction "mm_nregions heap - region" arbitrary: region s)
  case 0
  then show ?case by (simp add: check_regions.simps[of heap region])
next
  case (Suc k)
  then have lt: "region < mm_nregions heap" and k: "k = mm_nregions heap - (region + 1)"
    by simp_all
  from Suc.prems lt
  have "region_ok (mem s) (mm_heapstart heap region) (mm_heapend heap region) (nodes region)"
    by (simp add: heap_ok_def)
  then have r: "check_region heap region s = Some (Done (log_to s (sem_pair s)))"
    by (rule check_region_ok)
  from Suc.prems have ok: "heap_ok heap (mem (log_to s (sem_pair s))) nodes" by simp
  from Suc.hyps(2) have k': "mm_nregions heap - Suc region = k" by simp
  from Suc.hyps(1)[OF k ok] r lt Suc.hyps(2)[symmetric] show ?case
    by (simp add: check_regions.simps[of heap region] k')
qed

text \<open>
  C3. On a heap in which every region is a chain of nodes from its start to its end
  sentinel, every adjacent pair satisfies the boundary invariant and every free node
  the free-list symmetry invariant, the checker returns 0 and leaves the memory as
  it was, and any number of runs in a row all return 0.
\<close>

theorem sound_heap_passes:
  assumes "heap_ok heap (mem s) nodes"
  shows "(\<exists>s'. mm_check_heap_corruption heap s = Some (Return 0 s') \<and> mem s' = mem s)
       \<and> check_repeatedly n heap s = Some (replicate n 0)"
proof
  show "\<exists>s'. mm_check_heap_corruption heap s = Some (Return 0 s') \<and> mem s' = mem s"
    using check_regions_ok[OF assms, of 0] by (simp add: mm_check_heap_corruption_def)
  show "check_repeatedly n heap s = Some (replicate n 0)"
    using assms
  proof (induction n arbitrary: s)
    case 0
    then show ?case by simp
  next
    case (Suc n)
    let ?s1 = "log_to s (concat (replicate (mm_nregions heap) (sem_pair s)))"
    from check_regions_ok[OF Suc.prems, of 0]
    have run: "mm_check_heap_corruption heap s = Some (Return 0 ?s1)"
      by (simp add: mm_check_heap_corruption_def)
    from Suc.prems have "heap_ok heap (mem ?s1) nodes" by simp
    then have "check_repeatedly n heap ?s1 = Some (replicate n 0)" by (rule Suc.IH)
    with run show ?case by simp
  qed
qed

lemma demo_heap_ok: "heap_ok demo_heap (mem (demo_state demo_mem False)) (\<lambda>r. [0x1000, 0x1010, 0x1020])"
  by (simp add: heap_ok_def region_ok_def demo_heap_def demo_state_def demo_mem_def
      boundary_ok_def free_list_ok_def node_at_def
      MM_PREV_NODE_SIZE_def IS_FREE_NODE_def IS_ALLOCATED_NODE_def MM_ALLOC_BIT_def)

theorem sound_heap_passes_witness:
  "heap_ok demo_heap (mem (demo_state demo_mem False)) (\<lambda>r. [0x1000, 0x1010, 0x1020])
   \<and> (\<exists>s'. mm_check_heap_corruption demo_heap (demo_state demo_mem False) = Some (Return 0 s')
         \<and> mem s' = mem (demo_state demo_mem False))
   \<and> check_repeatedly 3 demo_heap (demo_state demo_mem False) = Some [0, 0, 0]"
  using demo_heap_ok sound_heap_passes[OF demo_heap_ok, of 3]
  by (simp add: numeral_3_eq_3)

subsection \<open>Termination of the walk\<close>

lemma walk_nodes_cases:
  assumes "\<And>x. node < heapend \<Longrightarrow> check_node prev node next s = Done s \<Longrightarrow>
             deref s next = Inr x \<Longrightarrow>
             \<exists>out. walk_nodes heapend node next (next + size_f x) s = Some out"
  shows "\<exists>out. walk_nodes heapend prev node next s = Some out"
proof (cases "node < heapend")
  case False
  then show ?thesis by (simp add: walk_nodes_stop)
next
  case True
  show ?thesis
  proof (cases "check_node prev node next s")
    case (Fault e)
    with True show ?thesis by (subst walk_nodes.simps) simp
  next
    case (Return r s1)
    with True show ?thesis by (simp add: walk_nodes_return)
  next
    case (Done s1)
    then have c: "check_node prev node next s = Done s"
      using check_node_Done by blast
    show ?thesis
    proof (cases "deref s next")
      case (Inl e)
      with True c show ?thesis by (subst walk_nodes.simps) simp
    next
      case (Inr x)
      with True c assms show ?thesis by (simp add: walk_nodes_step)
    qed
  qed
qed

lemma walk_nodes_terminates:
  "reaches_end (mem s) next e k \<Longrightarrow> \<exists>out. walk_nodes e prev node next s = Some out"
proof (induction k arbitrary: prev node "next")
  case 0
  then have "next = e" by simp
  show ?case
  proof (rule walk_nodes_cases)
    fix x
    show "\<exists>out. walk_nodes e node next (next + size_f x) s = Some out"
      using \<open>next = e\<close> by (simp add: walk_nodes_stop)
  qed
next
  case (Suc k)
  show ?case
  proof (rule walk_nodes_cases)
    fix x
    assume "deref s next = Inr x"
    with Suc.prems have "reaches_end (mem s) (next + size_f x) e k"
      by (auto simp: deref_def split: option.splits)
    then show "\<exists>out. walk_nodes e node next (next + size_f x) s = Some out"
      by (rule Suc.IH)
  qed
qed

lemma check_region_terminates:
  assumes "reaches_end (mem s) (mm_heapstart heap region) (mm_heapend heap region) k"
  shows "\<exists>out. check_region heap region s = Some out"
proof (cases "deref (take_unless_irq s) (mm_heapstart heap region)")
  case (Inl e)
  then show ?thesis by (simp add: check_region_def)
next
  case (Inr n)
  let ?s = "take_unless_irq s"
  let ?a = "mm_heapstart heap region"
  have "\<exists>out. walk_nodes (mm_heapend heap region) 0 ?a (?a + size_f n) ?s = Some out"
  proof (cases k)
    case 0
    with assms show ?thesis by (simp add: walk_nodes_stop)
  next
    case (Suc j)
    with assms Inr have "reaches_end (mem ?s) (?a + size_f n) (mm_heapend heap region) j"
      by (auto simp: deref_def take_log_to split: option.splits)
    then show ?thesis by (rule walk_nodes_terminates)
  qed
  with Inr show ?thesis
    by (auto simp: check_region_def split: outcome.splits)
qed

lemma check_node_zero_size:
  assumes "mem s = mem_zero_size" and "prev = 0 \<or> prev = 0x1000"
  shows "check_node prev 0x1000 0x1000 s = Done s"
  using assms
  by (auto simp: mem_zero_size_def demo_mem_def check_node_def branch_def prev_mismatch_def
      next_mismatch_def node_is_free_def deref_def node_at_def
      MM_PREV_NODE_SIZE_def IS_FREE_NODE_def IS_ALLOCATED_NODE_def MM_ALLOC_BIT_def)

lemma walk_zero_size_never_returns:
  "walk_nodes e prev node next s = Some out \<Longrightarrow>
     \<not> (e = 0x1030 \<and> node = 0x1000 \<and> next = 0x1000 \<and> (prev = 0 \<or> prev = 0x1000) \<and>
        mem s = mem_zero_size)"
proof (induction e prev node "next" s out rule: walk_nodes.raw_induct[rotated, consumes 1])
  case (1 walk e prev node "next" s out)
  show ?case
  proof
    assume a: "e = 0x1030 \<and> node = 0x1000 \<and> next = 0x1000 \<and> (prev = 0 \<or> prev = 0x1000) \<and>
        mem s = mem_zero_size"
    then have c: "check_node prev 0x1000 0x1000 s = Done s"
      by (intro check_node_zero_size) simp_all
    from a have d: "deref s 0x1000 = Inr \<lparr>size_f = 0, preceding = 0x80000000, flink = 0, blink = 0\<rparr>"
      by (simp add: deref_def node_at_def mem_zero_size_def)
    from a c d 1(2) have "walk 0x1030 0x1000 0x1000 0x1000 s = Some out"
      by simp
    from 1(1)[OF this] a show False by simp
  qed
qed

lemma zero_size_walk_diverges:
  "check_region demo_heap 0 (demo_state mem_zero_size irq) = None"
proof -
  let ?s = "take_unless_irq (demo_state mem_zero_size irq)"
  have m: "mem ?s = mem_zero_size"
    by (simp add: take_log_to demo_state_def)
  have "walk_nodes 0x1030 0 0x1000 0x1000 ?s = None"
  proof (cases "walk_nodes 0x1030 0 0x1000 0x1000 ?s")
    case (Some out)
    from walk_zero_size_never_returns[OF Some] m show ?thesis by simp
  qed simp
  moreover have "deref ?s 0x1000 = Inr \<lparr>size_f = 0, preceding = 0x80000000, flink = 0, blink = 0\<rparr>"
    using m by (simp add: deref_def node_at_def mem_zero_size_def)
  ultimately show ?thesis
    by (simp add: check_region_def demo_heap_def)
qed

text \<open>
  C9. The walk of a region ends (with a result or a fault) whenever advancing by
  \<^verbatim>\<open>size\<close> from \<^verbatim>\<open>mm_heapstart[region]\<close> through nodes of strictly positive
  size reaches \<^verbatim>\<open>mm_heapend[region]\<close>. The loop itself checks neither: on the
  region whose first node has size 0 the walk never ends.
\<close>

theorem region_walk_terminates:
  "(reaches_end (mem s) (mm_heapstart heap region) (mm_heapend heap region) k \<longrightarrow>
      (\<exists>out. check_region heap region s = Some out))
   \<and> check_region demo_heap 0 (demo_state mem_zero_size False) = None"
  using check_region_terminates[of s heap region k] zero_size_walk_diverges[of False]
  by blast

theorem region_walk_terminates_witness:
  "reaches_end (mem (demo_state demo_mem False)) (mm_heapstart demo_heap 0) (mm_heapend demo_heap 0) 3
   \<and> (\<exists>out. check_region demo_heap 0 (demo_state demo_mem False) = Some out)"
proof -
  have r: "reaches_end (mem (demo_state demo_mem False)) (mm_heapstart demo_heap 0)
             (mm_heapend demo_heap 0) 3"
    by (simp add: numeral_3_eq_3 demo_state_def demo_heap_def demo_mem_def node_at_def)
  with region_walk_terminates[of "demo_state demo_mem False" demo_heap 0 3] show ?thesis
    by blast
qed

subsection \<open>The first mismatched pair of a region\<close>

text \<open>
  When the walker stands at a node that agrees with its predecessor and disagrees
  with the node after it, the second branch reports both candidate pairs and returns
  \<open>-1\<close>. In the second pair the node is reported as overflowed (address, size,
  allocation letter) and the node after it as corrupted (address, size, preceding
  size); the preceding size of the node itself is logged in the first pair, where
  it is the corrupted one. Nothing beyond the node after it is read. The run
  \<open>bad_boundary_run\<close> reaches this state at \<open>0x1020\<close>.
\<close>

lemma mismatch_after_predecessor_reported:
  assumes "node < heapend"
    and "deref s prev = Inr p"
    and "deref s node = Inr n"
    and "deref s next = Inr x"
    and "size_f p = MM_PREV_NODE_SIZE n"
    and "size_f n \<noteq> MM_PREV_NODE_SIZE x"
  shows "walk_nodes heapend prev node next s =
           Some (Return (- 1) (log_to s
             ([Dbg HASH_LINE [], Dbg ERR_NODE_DOT [],
               Dbg EQ_LINE [], Dbg SCENARIO_1 [], Dbg EQ_LINE [],
               Dbg FMT_OVERFLOWED [prev, size_f p, if IS_ALLOCATED_NODE p then 65 else 70],
               Dbg FMT_CORRUPTED [node, size_f n, MM_PREV_NODE_SIZE n],
               Dbg EQ_LINE [], Dbg SCENARIO_2 [], Dbg EQ_LINE [],
               Dbg FMT_OVERFLOWED [node, size_f n, if IS_ALLOCATED_NODE n then 65 else 70],
               Dbg FMT_CORRUPTED [next, size_f x, MM_PREV_NODE_SIZE x],
               Dbg HASH_LINE []] @ give_events s)))"
proof -
  from assms(2,3,5) have "prev_mismatch prev node s = Inr False"
    by (simp add: prev_mismatch_def)
  moreover from assms(3,4,6) have "next_mismatch node next s = Inr True"
    by (simp add: next_mismatch_def)
  ultimately have "check_node prev node next s =
      Return (- 1) (log_to s
             ([Dbg HASH_LINE [], Dbg ERR_NODE_DOT [],
               Dbg EQ_LINE [], Dbg SCENARIO_1 [], Dbg EQ_LINE [],
               Dbg FMT_OVERFLOWED [prev, size_f p, if IS_ALLOCATED_NODE p then 65 else 70],
               Dbg FMT_CORRUPTED [node, size_f n, MM_PREV_NODE_SIZE n],
               Dbg EQ_LINE [], Dbg SCENARIO_2 [], Dbg EQ_LINE [],
               Dbg FMT_OVERFLOWED [node, size_f n, if IS_ALLOCATED_NODE n then 65 else 70],
               Dbg FMT_CORRUPTED [next, size_f x, MM_PREV_NODE_SIZE x],
               Dbg HASH_LINE []] @ give_events s))"
    using assms(2-4) by (simp add: check_node_def branch_def report_next_eq)
  with assms(1) show ?thesis by (rule walk_nodes_return)
qed

text \<open>
  C4 (the code at the failing input). In \<open>mem_bad_first\<close> the first adjacent pair
  with a mismatch is the head sentinel at \<open>0x1000\<close> and the node at \<open>0x1010\<close>:
  the sentinel has size 16 and the node records 24. The walk finds the mismatch at
  its first iteration, where \<^verbatim>\<open>prev\<close> is \<^verbatim>\<open>NULL\<close>, and the report reads
  \<^verbatim>\<open>prev->size\<close>: the walk of the region faults, so neither node of the pair is
  reported and no failure result is returned.
\<close>

theorem first_pair_mismatch_faults:
  "mm_heapstart demo_heap 0 = 0x1000
   \<and> map_option size_f (node_at mem_bad_first 0x1000) = Some 0x10
   \<and> map_option MM_PREV_NODE_SIZE (node_at mem_bad_first (0x1000 + 0x10)) = Some 0x18
   \<and> check_region demo_heap 0 (demo_state mem_bad_first False) = Some (Fault (SEGV 0))
   \<and> return_code (mm_check_heap_corruption demo_heap (demo_state mem_bad_first False)) = None"
  by (simp add: demo_heap_def demo_state_def mem_bad_first_def demo_mem_def run_simps)

subsection \<open>The first branch in a walk from the region's start\<close>

text \<open>
  In a walk that starts at \<^verbatim>\<open>mm_heapstart[region]\<close> with \<^verbatim>\<open>prev = NULL\<close>, and
  during which the memory does not change, every pair \<^verbatim>\<open>(prev, node)\<close> the first
  branch tests has already passed the second branch as \<^verbatim>\<open>(node, next)\<close> one
  iteration earlier. So the first branch never fires and its error line
  \<open>ERR_NODE\<close> is never logged: a mismatched pair is always found by the second
  branch, which reports it when the node has a predecessor and faults when it is
  the first node of the region.
\<close>

lemma ERR_NODE_distinct:
  "ERR_NODE \<noteq> HASH_LINE" "ERR_NODE \<noteq> ERR_NODE_DOT" "ERR_NODE \<noteq> EQ_LINE"
  "ERR_NODE \<noteq> SCENARIO_1" "ERR_NODE \<noteq> SCENARIO_2" "ERR_NODE \<noteq> ERR_FREE_LIST"
  by (simp_all add: ERR_NODE_def HASH_LINE_def ERR_NODE_DOT_def EQ_LINE_def SCENARIO_1_def
      SCENARIO_2_def ERR_FREE_LIST_def)

lemma give_events_quiet [simp]: "Dbg f a \<notin> set (give_events s)"
  by (simp add: give_events_def)

lemma take_events_quiet [simp]: "Dbg f a \<notin> set (take_events s)"
  by (simp add: take_events_def)

lemma check_node_Done_next:
  "check_node prev node next s = Done s' \<Longrightarrow> next_mismatch node next s = Inr False"
  by (auto simp: check_node_def branch_def split: sum.splits if_splits)

lemma next_ok_prev_ok:
  "next_mismatch node next s = Inr False \<Longrightarrow> prev_mismatch node next s = Inr False"
  by (auto simp: next_mismatch_def prev_mismatch_def split: sum.splits)

lemma check_node_quiet:
  assumes "prev_mismatch prev node s \<noteq> Inr True"
    and "check_node prev node next s = Return r s'"
  shows "\<exists>es. s' = log_to s es \<and> Dbg ERR_NODE [] \<notin> set es"
  using assms
  by (auto simp: check_node_def branch_def report_next_eq report_blink_eq report_flink_eq
      ERR_NODE_distinct split: sum.splits if_splits)

lemma walk_nodes_quiet:
  "walk_nodes e prev node next s = Some out \<Longrightarrow>
     prev_mismatch prev node s \<noteq> Inr True \<longrightarrow>
       (\<forall>r s'. out = Return r s' \<longrightarrow> (\<exists>es. s' = log_to s es \<and> Dbg ERR_NODE [] \<notin> set es))"
proof (induction e prev node "next" s out rule: walk_nodes.raw_induct[rotated, consumes 1])
  case (1 walk e prev node "next" s out)
  show ?case
  proof (intro impI allI)
    fix r s'
    assume inv: "prev_mismatch prev node s \<noteq> Inr True" and out: "out = Return r s'"
    show "\<exists>es. s' = log_to s es \<and> Dbg ERR_NODE [] \<notin> set es"
    proof (cases "node < e")
      case False
      with 1(2) out show ?thesis by simp
    next
      case True
      show ?thesis
      proof (cases "check_node prev node next s")
        case (Fault x)
        with True 1(2) out show ?thesis by simp
      next
        case (Return r1 s1)
        with True 1(2) out have "check_node prev node next s = Return r s'" by simp
        with inv show ?thesis by (rule check_node_quiet)
      next
        case (Done s1)
        then have s1: "s1 = s" by (rule check_node_Done)
        from Done have nx: "prev_mismatch node next s \<noteq> Inr True"
          using check_node_Done_next next_ok_prev_ok by fastforce
        show ?thesis
        proof (cases "deref s next")
          case (Inl x)
          with True Done s1 1(2) out show ?thesis by simp
        next
          case (Inr x)
          from True Done[unfolded s1] Inr 1(2)
          have "walk e node next (next + size_f x) s = Some out" by simp
          from 1(1)[OF this] nx out show ?thesis by simp
        qed
      qed
    qed
  qed
qed

lemma check_region_quiet:
  assumes "check_region heap region s = Some (Return r s')"
  shows "\<exists>es. s' = log_to s es \<and> Dbg ERR_NODE [] \<notin> set es"
proof -
  let ?s = "log_to s (take_events s)"
  let ?a = "mm_heapstart heap region"
  from assms obtain n where n: "deref ?s ?a = Inr n"
    and w: "walk_nodes (mm_heapend heap region) 0 ?a (?a + size_f n) ?s = Some (Return r s')"
    by (auto simp: check_region_def take_log_to Let_def
        split: sum.splits option.splits outcome.splits)
  have "prev_mismatch 0 ?a ?s \<noteq> Inr True" by (simp add: prev_mismatch_def)
  with walk_nodes_quiet[OF w] obtain es where "s' = log_to ?s es" "Dbg ERR_NODE [] \<notin> set es"
    by blast
  then show ?thesis
    by (intro exI[of _ "take_events s @ es"]) simp
qed

lemma sem_pair_quiet [simp]: "Dbg f a \<notin> set (sem_pair s)"
  by (simp add: sem_pair_def)

lemma check_regions_quiet:
  "check_regions heap region s = Some (Return r s') \<Longrightarrow>
     \<exists>es. s' = log_to s es \<and> Dbg ERR_NODE [] \<notin> set es"
proof (induction heap region s rule: check_regions.induct)
  case (1 heap region s)
  show ?case
  proof (cases "region < mm_nregions heap")
    case False
    with 1(2) have "s' = log_to s []"
      by (simp add: check_regions.simps[of heap region])
    then show ?thesis by (intro exI[of _ "[]"]) simp
  next
    case True
    from 1(2) True obtain o1 where o1: "check_region heap region s = Some o1"
      by (auto simp: check_regions.simps[of heap region] split: option.splits)
    show ?thesis
    proof (cases o1)
      case (Fault e)
      with 1(2) True o1 show ?thesis
        by (simp add: check_regions.simps[of heap region])
    next
      case (Return r1 s1)
      with 1(2) True o1 have "check_region heap region s = Some (Return r s')"
        by (simp add: check_regions.simps[of heap region])
      then show ?thesis by (rule check_region_quiet)
    next
      case (Done s1)
      with check_region_effect[OF o1] have s1: "s1 = log_to s (sem_pair s)" by simp
      from 1(2) True o1 Done have "check_regions heap (region + 1) s1 = Some (Return r s')"
        by (simp add: check_regions.simps[of heap region])
      from 1(1)[OF True o1 Done this] obtain es where
        "s' = log_to s1 es" "Dbg ERR_NODE [] \<notin> set es" by blast
      with s1 show ?thesis
        by (intro exI[of _ "sem_pair s @ es"]) simp
    qed
  qed
qed

lemma first_branch_never_fires:
  assumes "mm_check_heap_corruption heap s = Some (Return r s')"
  shows "\<exists>es. s' = log_to s es \<and> Dbg ERR_NODE [] \<notin> set es"
  using assms unfolding mm_check_heap_corruption_def by (rule check_regions_quiet)

subsection \<open>The free-list check\<close>

text \<open>
  C5 (as the claim states it, refuted). The checker visits the free node at
  \<open>0x1020\<close>, whose backward link is not symmetric, and returns \<open>-1\<close> with the
  boundary report of the second branch: the free-list check is an \<^verbatim>\<open>else if\<close>
  of the two boundary checks, so it is not made on this node, and no free-list
  message is logged.
\<close>

theorem free_node_not_checked_after_boundary_failure:
  "map_option IS_FREE_NODE (node_at mem_bad_both 0x1020) = Some True
   \<and> map_option blink (node_at mem_bad_both 0x1020) = Some 0x2000
   \<and> map_option flink (node_at mem_bad_both 0x2000) = Some 0x1010
   \<and> return_code (mm_check_heap_corruption demo_heap (demo_state mem_bad_both False)) = Some (- 1)
   \<and> logged (mm_check_heap_corruption demo_heap (demo_state mem_bad_both False)) =
       [HASH_LINE, ERR_NODE_DOT, EQ_LINE, SCENARIO_1, EQ_LINE, FMT_OVERFLOWED, FMT_CORRUPTED,
        EQ_LINE, SCENARIO_2, EQ_LINE, FMT_OVERFLOWED, FMT_CORRUPTED, HASH_LINE]
   \<and> ERR_FREE_LIST \<notin> set [HASH_LINE, ERR_NODE_DOT, EQ_LINE, SCENARIO_1, EQ_LINE, FMT_OVERFLOWED,
        FMT_CORRUPTED, EQ_LINE, SCENARIO_2, EQ_LINE, FMT_OVERFLOWED, FMT_CORRUPTED, HASH_LINE]
   \<and> FMT_BLINK \<notin> set [HASH_LINE, ERR_NODE_DOT, EQ_LINE, SCENARIO_1, EQ_LINE, FMT_OVERFLOWED,
        FMT_CORRUPTED, EQ_LINE, SCENARIO_2, EQ_LINE, FMT_OVERFLOWED, FMT_CORRUPTED, HASH_LINE]"
proof -
  have run: "mm_check_heap_corruption demo_heap (demo_state mem_bad_both False) =
     Some (Return (- 1) (bad_boundary_final\<lparr>mem := mem_bad_both\<rparr>))"
    by (simp add: demo_heap_def demo_state_def mem_bad_both_def mem_bad_boundary_def demo_mem_def
        bad_boundary_final_def run_simps)
  have strs: "ERR_FREE_LIST \<notin> set [HASH_LINE, ERR_NODE_DOT, EQ_LINE, SCENARIO_1, EQ_LINE,
        FMT_OVERFLOWED, FMT_CORRUPTED, EQ_LINE, SCENARIO_2, EQ_LINE, FMT_OVERFLOWED,
        FMT_CORRUPTED, HASH_LINE]"
    "FMT_BLINK \<notin> set [HASH_LINE, ERR_NODE_DOT, EQ_LINE, SCENARIO_1, EQ_LINE,
        FMT_OVERFLOWED, FMT_CORRUPTED, EQ_LINE, SCENARIO_2, EQ_LINE, FMT_OVERFLOWED,
        FMT_CORRUPTED, HASH_LINE]"
    by (simp_all add: HASH_LINE_def ERR_NODE_DOT_def EQ_LINE_def SCENARIO_1_def SCENARIO_2_def
        FMT_OVERFLOWED_def FMT_CORRUPTED_def ERR_FREE_LIST_def FMT_BLINK_def)
  have mem: "map_option IS_FREE_NODE (node_at mem_bad_both 0x1020) = Some True"
    "map_option blink (node_at mem_bad_both 0x1020) = Some 0x2000"
    "map_option flink (node_at mem_bad_both 0x2000) = Some 0x1010"
    by (simp_all add: node_at_def mem_bad_both_def mem_bad_boundary_def demo_mem_def
        IS_FREE_NODE_def IS_ALLOCATED_NODE_def MM_ALLOC_BIT_def)
  show ?thesis
    unfolding run using strs mem by (simp add: bad_boundary_final_def)
qed

text \<open>
  C5 (amended). Take a visited node below the region's end that has passed both
  boundary checks. If it is allocated, or free with both links symmetric (a
  \<^verbatim>\<open>NULL\<close> link counts as symmetric), the walk goes on to the next node and
  the links of an allocated node are not read. If it is free and its non-null
  \<^verbatim>\<open>blink\<close> has \<^verbatim>\<open>blink->flink != node\<close>, or else its non-null \<^verbatim>\<open>flink\<close>
  has \<^verbatim>\<open>flink->blink != node\<close>, and the node has a predecessor in the walk, the
  walk logs the predecessor, the node and the two mismatched pointers, gives the
  semaphore back in task context and returns \<open>-1\<close> without visiting another node.
  The backward link is tested first; the forward link only when the backward link
  passes.
\<close>

theorem free_list_check:
  assumes "node < heapend"
    and "prev_mismatch prev node s = Inr False"
    and "next_mismatch node next s = Inr False"
    and "deref s node = Inr n"
    and "deref s next = Inr x"
    and "blink n \<noteq> 0 \<longrightarrow> deref s (blink n) = Inr b"
    and "flink n \<noteq> 0 \<longrightarrow> deref s (flink n) = Inr f"
    and "prev \<noteq> 0 \<longrightarrow> deref s prev = Inr p"
  shows
    "(IS_FREE_NODE n \<and> blink n \<noteq> 0 \<and> flink b \<noteq> node \<and> prev \<noteq> 0 \<longrightarrow>
        walk_nodes heapend prev node next s =
          Some (Return (- 1) (log_to s
            ([Dbg HASH_LINE [], Dbg ERR_FREE_LIST [],
              Dbg FMT_OVERFLOWED [prev, size_f p, if IS_ALLOCATED_NODE p then 65 else 70],
              Dbg FMT_CORRUPTED [node, size_f n, MM_PREV_NODE_SIZE n],
              Dbg FMT_BLINK [blink n, flink b],
              Dbg HASH_LINE []] @ give_events s))))
   \<and> (IS_FREE_NODE n \<and> (blink n = 0 \<or> flink b = node) \<and> flink n \<noteq> 0 \<and> blink f \<noteq> node \<and>
      prev \<noteq> 0 \<longrightarrow>
        walk_nodes heapend prev node next s =
          Some (Return (- 1) (log_to s
            ([Dbg HASH_LINE [], Dbg ERR_FREE_LIST [],
              Dbg FMT_OVERFLOWED [prev, size_f p, if IS_ALLOCATED_NODE p then 65 else 70],
              Dbg FMT_CORRUPTED [node, size_f n, MM_PREV_NODE_SIZE n],
              Dbg FMT_FLINK [flink n, blink f],
              Dbg HASH_LINE []] @ give_events s))))
   \<and> (IS_ALLOCATED_NODE n \<or>
      (blink n = 0 \<or> flink b = node) \<and> (flink n = 0 \<or> blink f = node) \<longrightarrow>
        walk_nodes heapend prev node next s =
          walk_nodes heapend node next (next + size_f x) s)"
proof (intro conjI impI)
  assume a: "IS_FREE_NODE n \<and> blink n \<noteq> 0 \<and> flink b \<noteq> node \<and> prev \<noteq> 0"
  with assms(6,8) have d: "deref s (blink n) = Inr b" "deref s prev = Inr p" by simp_all
  from a assms(2-4) d have "check_node prev node next s =
      Return (- 1) (log_to s
            ([Dbg HASH_LINE [], Dbg ERR_FREE_LIST [],
              Dbg FMT_OVERFLOWED [prev, size_f p, if IS_ALLOCATED_NODE p then 65 else 70],
              Dbg FMT_CORRUPTED [node, size_f n, MM_PREV_NODE_SIZE n],
              Dbg FMT_BLINK [blink n, flink b],
              Dbg HASH_LINE []] @ give_events s))"
    by (simp add: check_node_def branch_def node_is_free_def blink_mismatch_def report_blink_eq)
  with assms(1) show "walk_nodes heapend prev node next s =
          Some (Return (- 1) (log_to s
            ([Dbg HASH_LINE [], Dbg ERR_FREE_LIST [],
              Dbg FMT_OVERFLOWED [prev, size_f p, if IS_ALLOCATED_NODE p then 65 else 70],
              Dbg FMT_CORRUPTED [node, size_f n, MM_PREV_NODE_SIZE n],
              Dbg FMT_BLINK [blink n, flink b],
              Dbg HASH_LINE []] @ give_events s)))"
    by (rule walk_nodes_return)
next
  assume a: "IS_FREE_NODE n \<and> (blink n = 0 \<or> flink b = node) \<and> flink n \<noteq> 0 \<and> blink f \<noteq> node \<and>
      prev \<noteq> 0"
  with assms(7,8) have d: "deref s (flink n) = Inr f" "deref s prev = Inr p" by simp_all
  from a assms(6) have bl: "blink_mismatch node s = Inr False"
    by (auto simp: blink_mismatch_def assms(4))
  from a assms(2-4) d bl have "check_node prev node next s =
      Return (- 1) (log_to s
            ([Dbg HASH_LINE [], Dbg ERR_FREE_LIST [],
              Dbg FMT_OVERFLOWED [prev, size_f p, if IS_ALLOCATED_NODE p then 65 else 70],
              Dbg FMT_CORRUPTED [node, size_f n, MM_PREV_NODE_SIZE n],
              Dbg FMT_FLINK [flink n, blink f],
              Dbg HASH_LINE []] @ give_events s))"
    by (simp add: check_node_def branch_def node_is_free_def flink_mismatch_def report_flink_eq)
  with assms(1) show "walk_nodes heapend prev node next s =
          Some (Return (- 1) (log_to s
            ([Dbg HASH_LINE [], Dbg ERR_FREE_LIST [],
              Dbg FMT_OVERFLOWED [prev, size_f p, if IS_ALLOCATED_NODE p then 65 else 70],
              Dbg FMT_CORRUPTED [node, size_f n, MM_PREV_NODE_SIZE n],
              Dbg FMT_FLINK [flink n, blink f],
              Dbg HASH_LINE []] @ give_events s)))"
    by (rule walk_nodes_return)
next
  assume a: "IS_ALLOCATED_NODE n \<or>
      (blink n = 0 \<or> flink b = node) \<and> (flink n = 0 \<or> blink f = node)"
  have "check_node prev node next s = Done s"
  proof (cases "IS_ALLOCATED_NODE n")
    case True
    with assms(2-4) show ?thesis
      by (simp add: check_node_def branch_def node_is_free_def IS_FREE_NODE_def)
  next
    case False
    with a assms(6,7) have "blink_mismatch node s = Inr False" "flink_mismatch node s = Inr False"
      by (auto simp: blink_mismatch_def flink_mismatch_def assms(4))
    with assms(2-4) show ?thesis
      by (simp add: check_node_def branch_def node_is_free_def)
  qed
  with assms(1) show "walk_nodes heapend prev node next s =
          walk_nodes heapend node next (next + size_f x) s"
    using assms(5) by (rule walk_nodes_step)
qed

theorem free_list_check_witness:
  "(0x1020 :: addr) < 0x1030
   \<and> prev_mismatch 0x1010 0x1020 (demo_state mem_bad_blink True) = Inr False
   \<and> next_mismatch 0x1020 0x1030 (demo_state mem_bad_blink True) = Inr False
   \<and> deref (demo_state mem_bad_blink True) 0x1020 =
       Inr \<lparr>size_f = 0x10, preceding = 0x10, flink = 0, blink = 0x2000\<rparr>
   \<and> deref (demo_state mem_bad_blink True) 0x1030 =
       Inr \<lparr>size_f = 0x10, preceding = 0x80000010, flink = 0, blink = 0\<rparr>
   \<and> deref (demo_state mem_bad_blink True) 0x2000 =
       Inr \<lparr>size_f = 0, preceding = 0, flink = 0x1010, blink = 0\<rparr>
   \<and> deref (demo_state mem_bad_blink True) 0x1010 =
       Inr \<lparr>size_f = 0x10, preceding = 0x80000010, flink = 0, blink = 0\<rparr>
   \<and> IS_FREE_NODE \<lparr>size_f = 0x10, preceding = 0x10, flink = 0, blink = 0x2000\<rparr>
   \<and> walk_nodes 0x1030 0x1010 0x1020 0x1030 (demo_state mem_bad_blink True) =
       Some (Return (- 1) \<lparr>mem = mem_bad_blink, in_irq = True,
         trace = [Dbg HASH_LINE [], Dbg ERR_FREE_LIST [],
           Dbg FMT_OVERFLOWED [0x1010, 0x10, 65], Dbg FMT_CORRUPTED [0x1020, 0x10, 0x10],
           Dbg FMT_BLINK [0x2000, 0x1010], Dbg HASH_LINE []]\<rparr>)
   \<and> walk_nodes 0x1030 0x1010 0x1020 0x1030 (demo_state mem_bad_flink True) =
       Some (Return (- 1) \<lparr>mem = mem_bad_flink, in_irq = True,
         trace = [Dbg HASH_LINE [], Dbg ERR_FREE_LIST [],
           Dbg FMT_OVERFLOWED [0x1010, 0x10, 65], Dbg FMT_CORRUPTED [0x1020, 0x10, 0x10],
           Dbg FMT_FLINK [0x2010, 0x1010], Dbg HASH_LINE []]\<rparr>)
   \<and> walk_nodes 0x1030 0x1010 0x1020 0x1030 (demo_state demo_mem True) =
       walk_nodes 0x1030 0x1020 0x1030 0x1040 (demo_state demo_mem True)
   \<and> walk_nodes 0x1030 0x1000 0x1010 0x1020 (demo_state demo_mem True) =
       walk_nodes 0x1030 0x1010 0x1020 0x1030 (demo_state demo_mem True)"
proof -
  let ?h = "\<lparr>size_f = 0x10 :: mmsize_t, preceding = 0x80000000, flink = 0, blink = 0\<rparr>"
  let ?x = "\<lparr>size_f = 0x10 :: mmsize_t, preceding = 0x80000010, flink = 0, blink = 0\<rparr>"
  let ?n = "\<lparr>size_f = 0x10 :: mmsize_t, preceding = 0x10, flink = 0, blink = 0x2000\<rparr>"
  have lt: "(0x1020 :: addr) < 0x1030" and lt': "(0x1010 :: addr) < 0x1030" by simp_all
  have free: "IS_FREE_NODE ?n" and alloc: "IS_ALLOCATED_NODE ?x"
    by (simp_all add: IS_FREE_NODE_def IS_ALLOCATED_NODE_def MM_ALLOC_BIT_def)
  note tags = MM_PREV_NODE_SIZE_def IS_FREE_NODE_def IS_ALLOCATED_NODE_def MM_ALLOC_BIT_def
  note mems = deref_def node_at_def demo_state_def demo_mem_def

  \<comment> \<open>the backward link is broken\<close>
  let ?s = "demo_state mem_bad_blink True"
  let ?b = "\<lparr>size_f = 0 :: mmsize_t, preceding = 0, flink = 0x1010, blink = 0\<rparr>"
  have n: "deref ?s 0x1020 = Inr ?n" and x: "deref ?s 0x1030 = Inr ?x"
    and b: "deref ?s 0x2000 = Inr ?b" and p: "deref ?s 0x1010 = Inr ?x"
    by (simp_all add: mems mem_bad_blink_def)
  have pm: "prev_mismatch 0x1010 0x1020 ?s = Inr False"
    by (simp add: prev_mismatch_def n p tags)
  have nm: "next_mismatch 0x1020 0x1030 ?s = Inr False"
    by (simp add: next_mismatch_def n x tags)
  have "blink ?n \<noteq> 0 \<longrightarrow> deref ?s (blink ?n) = Inr ?b"
    and "flink ?n \<noteq> 0 \<longrightarrow> deref ?s (flink ?n) = Inr ?b"
    and "(0x1010 :: addr) \<noteq> 0 \<longrightarrow> deref ?s 0x1010 = Inr ?x"
    using b p by simp_all
  from free_list_check[OF lt pm nm n x this] free
  have c1: "walk_nodes 0x1030 0x1010 0x1020 0x1030 ?s =
       Some (Return (- 1) \<lparr>mem = mem_bad_blink, in_irq = True,
         trace = [Dbg HASH_LINE [], Dbg ERR_FREE_LIST [],
           Dbg FMT_OVERFLOWED [0x1010, 0x10, 65], Dbg FMT_CORRUPTED [0x1020, 0x10, 0x10],
           Dbg FMT_BLINK [0x2000, 0x1010], Dbg HASH_LINE []]\<rparr>)"
    by (simp add: demo_state_def log_to_def give_events_def tags)

  \<comment> \<open>the backward link is symmetric, the forward link is broken\<close>
  let ?t = "demo_state mem_bad_flink True"
  let ?n2 = "\<lparr>size_f = 0x10 :: mmsize_t, preceding = 0x10, flink = 0x2010, blink = 0x2000\<rparr>"
  let ?b2 = "\<lparr>size_f = 0 :: mmsize_t, preceding = 0, flink = 0x1020, blink = 0\<rparr>"
  let ?f2 = "\<lparr>size_f = 0 :: mmsize_t, preceding = 0, flink = 0, blink = 0x1010\<rparr>"
  have n2: "deref ?t 0x1020 = Inr ?n2" and x2: "deref ?t 0x1030 = Inr ?x"
    and b2: "deref ?t 0x2000 = Inr ?b2" and f2: "deref ?t 0x2010 = Inr ?f2"
    and p2: "deref ?t 0x1010 = Inr ?x"
    by (simp_all add: mems mem_bad_flink_def)
  have pm2: "prev_mismatch 0x1010 0x1020 ?t = Inr False"
    by (simp add: prev_mismatch_def n2 p2 tags)
  have nm2: "next_mismatch 0x1020 0x1030 ?t = Inr False"
    by (simp add: next_mismatch_def n2 x2 tags)
  have free2: "IS_FREE_NODE ?n2" by (simp add: tags)
  have "blink ?n2 \<noteq> 0 \<longrightarrow> deref ?t (blink ?n2) = Inr ?b2"
    and "flink ?n2 \<noteq> 0 \<longrightarrow> deref ?t (flink ?n2) = Inr ?f2"
    and "(0x1010 :: addr) \<noteq> 0 \<longrightarrow> deref ?t 0x1010 = Inr ?x"
    using b2 f2 p2 by simp_all
  from free_list_check[OF lt pm2 nm2 n2 x2 this] free2
  have c2: "walk_nodes 0x1030 0x1010 0x1020 0x1030 ?t =
       Some (Return (- 1) \<lparr>mem = mem_bad_flink, in_irq = True,
         trace = [Dbg HASH_LINE [], Dbg ERR_FREE_LIST [],
           Dbg FMT_OVERFLOWED [0x1010, 0x10, 65], Dbg FMT_CORRUPTED [0x1020, 0x10, 0x10],
           Dbg FMT_FLINK [0x2010, 0x1010], Dbg HASH_LINE []]\<rparr>)"
    by (simp add: demo_state_def log_to_def give_events_def tags)

  \<comment> \<open>a free node with symmetric links, and an allocated node\<close>
  let ?u = "demo_state demo_mem True"
  have n3: "deref ?u 0x1020 = Inr ?n" and x3: "deref ?u 0x1030 = Inr ?x"
    and b3: "deref ?u 0x2000 = Inr ?b2" and p3: "deref ?u 0x1010 = Inr ?x"
    and h3: "deref ?u 0x1000 = Inr ?h"
    by (simp_all add: mems)
  have pm3: "prev_mismatch 0x1010 0x1020 ?u = Inr False"
    by (simp add: prev_mismatch_def n3 p3 tags)
  have nm3: "next_mismatch 0x1020 0x1030 ?u = Inr False"
    by (simp add: next_mismatch_def n3 x3 tags)
  have "blink ?n \<noteq> 0 \<longrightarrow> deref ?u (blink ?n) = Inr ?b2"
    and "flink ?n \<noteq> 0 \<longrightarrow> deref ?u (flink ?n) = Inr ?b2"
    and "(0x1010 :: addr) \<noteq> 0 \<longrightarrow> deref ?u 0x1010 = Inr ?x"
    using b3 p3 by simp_all
  from free_list_check[OF lt pm3 nm3 n3 x3 this]
  have c3: "walk_nodes 0x1030 0x1010 0x1020 0x1030 ?u = walk_nodes 0x1030 0x1020 0x1030 0x1040 ?u"
    by simp
  have pm4: "prev_mismatch 0x1000 0x1010 ?u = Inr False"
    by (simp add: prev_mismatch_def h3 p3 tags)
  have nm4: "next_mismatch 0x1010 0x1020 ?u = Inr False"
    by (simp add: next_mismatch_def n3 p3 tags)
  have "blink ?x \<noteq> 0 \<longrightarrow> deref ?u (blink ?x) = Inr ?x"
    and "flink ?x \<noteq> 0 \<longrightarrow> deref ?u (flink ?x) = Inr ?x"
    and "(0x1000 :: addr) \<noteq> 0 \<longrightarrow> deref ?u 0x1000 = Inr ?h"
    using h3 by simp_all
  from free_list_check[OF lt' pm4 nm4 p3 n3 this] alloc
  have c4: "walk_nodes 0x1030 0x1000 0x1010 0x1020 ?u = walk_nodes 0x1030 0x1010 0x1020 0x1030 ?u"
    by simp
  from lt pm nm n x b p free c1 c2 c3 c4 show ?thesis by simp
qed

section \<open>Properties of \<open>select\<close>\<close>

subsection \<open>What the two loops over the descriptors compute\<close>

lemma count_loop_eq:
  "count_loop nfds r w e f n = n + length (filter (watched_fd r w e) [f..nfds - 1])"
proof (induction nfds r w e f n rule: count_loop.induct)
  case (1 nfds r w e f n)
  show ?case
  proof (cases "f < nfds")
    case True
    then have "[f..nfds - 1] = f # [f + 1..nfds - 1]"
      by (simp add: upto_rec1)
    with 1 True show ?thesis
      by (subst count_loop.simps) (simp add: watched_fd_def[symmetric])
  next
    case False
    then show ?thesis
      by (subst count_loop.simps) simp
  qed
qed

lemma count_loop_watched:
  "count_loop nfds r w e 0 0 = length (watched nfds r w e)"
  by (simp add: count_loop_eq watched_def)

lemma init_desc_step_eq:
  assumes "ndx < length ps" and "ps ! ndx = zero_pollfd"
  shows "init_desc_step r w e f ndx ps =
           (if watched_fd r w e f then Some (1, ps[ndx := interest r w e f]) else Some (0, ps))"
  using assms
  by (auto simp: init_desc_step_def add_interest_def watched_fd_def interest_def zero_pollfd_def
      or.assoc)

lemma init_desc_step_unwatched:
  "\<not> watched_fd r w e f \<Longrightarrow> init_desc_step r w e f ndx ps = Some (0, ps)"
  by (simp add: init_desc_step_def watched_fd_def)

lemma init_desc_loop_eq:
  assumes "ndx + length (filter (watched_fd r w e) [f..nfds - 1]) \<le> length ps"
    and "\<forall>i. ndx \<le> i \<and> i < length ps \<longrightarrow> ps ! i = zero_pollfd"
  shows "init_desc_loop nfds r w e f ndx ps =
           Some (ndx + length (filter (watched_fd r w e) [f..nfds - 1]),
                 take ndx ps @ map (interest r w e) (filter (watched_fd r w e) [f..nfds - 1]) @
                 drop (ndx + length (filter (watched_fd r w e) [f..nfds - 1])) ps)"
  using assms
proof (induction nfds r w e f ndx ps rule: init_desc_loop.induct)
  case (1 nfds r w e f ndx ps)
  show ?case
  proof (cases "f < nfds")
    case False
    then show ?thesis
      by (subst init_desc_loop.simps) simp
  next
    case True
    then have up: "[f..nfds - 1] = f # [f + 1..nfds - 1]"
      by (simp add: upto_rec1)
    let ?ws = "filter (watched_fd r w e) [f + 1..nfds - 1]"
    show ?thesis
    proof (cases "watched_fd r w e f")
      case False
      then have step: "init_desc_step r w e f ndx ps = Some (0, ps)"
        by (rule init_desc_step_unwatched)
      from "1.prems" up False have "ndx + 0 + length ?ws \<le> length ps"
        and "\<forall>i. ndx + 0 \<le> i \<and> i < length ps \<longrightarrow> ps ! i = zero_pollfd"
        by simp_all
      from "1.IH"[OF True step refl this] True step up False show ?thesis
        by (subst init_desc_loop.simps) simp
    next
      case w: True
      with "1.prems" up have lt: "ndx < length ps" and z: "ps ! ndx = zero_pollfd"
        by simp_all
      let ?ps = "ps[ndx := interest r w e f]"
      from lt z w have step: "init_desc_step r w e f ndx ps = Some (1, ?ps)"
        by (simp add: init_desc_step_eq)
      from "1.prems" up w have "ndx + 1 + length ?ws \<le> length ?ps"
        and "\<forall>i. ndx + 1 \<le> i \<and> i < length ?ps \<longrightarrow> ?ps ! i = zero_pollfd"
        by simp_all
      from "1.IH"[OF True step refl this]
      have "init_desc_loop nfds r w e (f + 1) (ndx + 1) ?ps =
              Some (ndx + 1 + length ?ws,
                take (ndx + 1) ?ps @ map (interest r w e) ?ws @ drop (ndx + 1 + length ?ws) ?ps)" .
      moreover from lt have "take (ndx + 1) ?ps = take ndx ps @ [interest r w e f]"
        by (simp add: take_Suc_conv_app_nth)
      moreover have "drop (ndx + 1 + length ?ws) ?ps = drop (ndx + 1 + length ?ws) ps"
        by simp
      ultimately show ?thesis
        using True step up w by (subst init_desc_loop.simps) simp
    qed
  qed
qed

lemma init_desc_list_eq:
  "init_desc_list nfds r w e (replicate (length (watched nfds r w e)) zero_pollfd) =
     Some (length (watched nfds r w e), map (interest r w e) (watched nfds r w e))"
  unfolding init_desc_list_def watched_def
  by (subst init_desc_loop_eq) simp_all

lemma back_one_eq:
  "back_one p flags (S, ret) = (add_hits S (hits flags [p]), ret + count_hits S (hits flags [p]))"
  by (cases S) (simp_all add: back_one_def add_hits_def count_hits_def hits_def)

lemma hits_Cons: "hits flags (p # ps) = hits flags [p] @ hits flags ps"
  by (simp add: hits_def)

lemma add_hits_append: "add_hits (add_hits S xs) ys = add_hits S (xs @ ys)"
  by (cases S) (auto simp: add_hits_def)

lemma count_hits_add: "count_hits (add_hits S xs) ys = count_hits S ys"
  by (cases S) (simp_all add: add_hits_def count_hits_def)

lemma count_hits_append: "count_hits S (xs @ ys) = count_hits S xs + count_hits S ys"
  by (simp add: count_hits_def)

lemma back_desc_loop_eq:
  assumes "npfds \<le> length ps"
  shows "back_desc_loop npfds ps ndx R W E ret =
           Some (add_hits R (hits (POLLIN OR POLLHUP) (drop ndx (take npfds ps))),
                 add_hits W (hits POLLOUT (drop ndx (take npfds ps))),
                 add_hits E (hits POLLERR (drop ndx (take npfds ps))),
                 ret + count_hits R (hits (POLLIN OR POLLHUP) (drop ndx (take npfds ps)))
                     + count_hits W (hits POLLOUT (drop ndx (take npfds ps)))
                     + count_hits E (hits POLLERR (drop ndx (take npfds ps))))"
  using assms
proof (induction npfds ps ndx R W E ret rule: back_desc_loop.induct)
  case (1 npfds ps ndx R W E ret)
  show ?case
  proof (cases "ndx < npfds")
    case False
    then show ?thesis
      by (subst back_desc_loop.simps)
        (cases R; cases W; cases E; simp add: add_hits_def count_hits_def hits_def)
  next
    case True
    with "1.prems" have lt: "ndx < length ps" by simp
    let ?p = "ps ! ndx"
    from True lt have "ndx < length (take npfds ps)" and "take npfds ps ! ndx = ?p"
      by simp_all
    then have dr: "drop ndx (take npfds ps) = ?p # drop (ndx + 1) (take npfds ps)"
      using Cons_nth_drop_Suc[of ndx "take npfds ps"] by simp
    let ?R = "add_hits R (hits (POLLIN OR POLLHUP) [?p])"
    let ?r1 = "ret + count_hits R (hits (POLLIN OR POLLHUP) [?p])"
    let ?W = "add_hits W (hits POLLOUT [?p])"
    let ?r2 = "?r1 + count_hits W (hits POLLOUT [?p])"
    let ?E = "add_hits E (hits POLLERR [?p])"
    let ?r3 = "?r2 + count_hits E (hits POLLERR [?p])"
    have "back_desc_loop npfds ps ndx R W E ret = back_desc_loop npfds ps (ndx + 1) ?R ?W ?E ?r3"
      using True lt by (subst back_desc_loop.simps) (simp add: back_one_eq Let_def)
    also have "\<dots> = Some (add_hits ?R (hits (POLLIN OR POLLHUP) (drop (ndx + 1) (take npfds ps))),
                 add_hits ?W (hits POLLOUT (drop (ndx + 1) (take npfds ps))),
                 add_hits ?E (hits POLLERR (drop (ndx + 1) (take npfds ps))),
                 ?r3 + count_hits ?R (hits (POLLIN OR POLLHUP) (drop (ndx + 1) (take npfds ps)))
                     + count_hits ?W (hits POLLOUT (drop (ndx + 1) (take npfds ps)))
                     + count_hits ?E (hits POLLERR (drop (ndx + 1) (take npfds ps))))"
      using True lt "1.prems"
      by (intro "1.IH") (simp_all add: back_one_eq)
    finally show ?thesis
      unfolding dr hits_Cons[where ps = "drop (ndx + 1) (take npfds ps)"]
      by (simp add: add_hits_append count_hits_add count_hits_append)
  qed
qed

lemma store_revents_interest:
  "store_revents rv (map (interest r w e) ws) =
     map (\<lambda>i. (interest r w e (ws ! i))\<lparr>revents := rv i\<rparr>) [0..<length ws]"
  by (simp add: store_revents_def)

lemma hits_store_revents:
  "hits flags (store_revents rv (map (interest r w e) ws)) = ready ws rv (\<lambda>x. x AND flags \<noteq> 0)"
  by (simp add: store_revents_interest hits_def ready_def filter_map comp_def interest_def)

lemma and_or_nonzero:
  "((x :: pollevent_t) AND (a OR b) \<noteq> 0) = (x AND a \<noteq> 0 \<or> x AND b \<noteq> 0)"
  by (simp add: bit.conj_disj_distrib or_eq_0_iff)

lemma distinct_watched: "distinct (watched nfds r w e)"
  by (simp add: watched_def)

lemma distinct_ready: "distinct ws \<Longrightarrow> distinct (ready ws rv P)"
  unfolding ready_def
  by (auto simp: distinct_map inj_on_def nth_eq_iff_index_eq)

lemma members_add_hits:
  "distinct xs \<Longrightarrow> int (members (add_hits (map_option (\<lambda>_. {}) S) xs)) = count_hits S xs"
  by (cases S) (simp_all add: add_hits_def count_hits_def distinct_card)

lemma add_hits_reset:
  "add_hits (map_option (\<lambda>_. {}) S) xs = map_option (\<lambda>_. set xs) S"
  by (cases S) (simp_all add: add_hits_def)

lemma count_hits_reset [simp]: "count_hits (map_option (\<lambda>_. {}) S) xs = count_hits S xs"
  by (simp add: count_hits_def)

lemma length_store_revents [simp]: "length (store_revents rv ps) = length ps"
  by (simp add: store_revents_def)

lemma count_hits_nonneg [simp]: "0 \<le> count_hits S xs"
  by (simp add: count_hits_def)

lemma back_desc_list_eq:
  "back_desc_list (length ws) (map_option (\<lambda>_. {}) r) (map_option (\<lambda>_. {}) w)
       (map_option (\<lambda>_. {}) e) (store_revents rv (map (interest r w e) ws)) =
     Some (map_option (\<lambda>_. set (ready ws rv (\<lambda>x. x AND (POLLIN OR POLLHUP) \<noteq> 0))) r,
           map_option (\<lambda>_. set (ready ws rv (\<lambda>x. x AND POLLOUT \<noteq> 0))) w,
           map_option (\<lambda>_. set (ready ws rv (\<lambda>x. x AND POLLERR \<noteq> 0))) e,
           count_hits r (ready ws rv (\<lambda>x. x AND (POLLIN OR POLLHUP) \<noteq> 0)) +
           count_hits w (ready ws rv (\<lambda>x. x AND POLLOUT \<noteq> 0)) +
           count_hits e (ready ws rv (\<lambda>x. x AND POLLERR \<noteq> 0)))"
proof -
  let ?ps = "store_revents rv (map (interest r w e) ws)"
  have "length ws \<le> length ?ps" by simp
  from back_desc_loop_eq[OF this, of 0] show ?thesis
    by (simp add: back_desc_list_def hits_store_revents add_hits_reset)
qed

text \<open>
  \<^verbatim>\<open>select\<close> with its three loops replaced by what they compute.
\<close>

lemma select_eq:
  "select env nfds r w e timeout =
     (let ws = watched nfds r w e; npfds = length ws
      in if npfds > 0 \<and> \<not> kmm_zalloc_ok env then
           Some \<lparr>sel_ret = ERROR, sel_readfds = r, sel_writefds = w, sel_exceptfds = e,
             sel_calls = [ENTER_CANCELLATION_POINT, KMM_ZALLOC npfds, SET_ERRNO ENOMEM,
               LEAVE_CANCELLATION_POINT]\<rparr>
         else
           let ps = map (interest r w e) ws;
               msec = set_timeout timeout;
               (ret, rv, err) = poll env ps msec
           in Some \<lparr>sel_ret =
                  (if ret > 0 then
                     count_hits r (ready ws rv (\<lambda>x. x AND (POLLIN OR POLLHUP) \<noteq> 0)) +
                     count_hits w (ready ws rv (\<lambda>x. x AND POLLOUT \<noteq> 0)) +
                     count_hits e (ready ws rv (\<lambda>x. x AND POLLERR \<noteq> 0))
                   else ret),
                sel_readfds = map_option (\<lambda>_. if ret > 0
                    then set (ready ws rv (\<lambda>x. x AND (POLLIN OR POLLHUP) \<noteq> 0)) else {}) r,
                sel_writefds = map_option (\<lambda>_. if ret > 0
                    then set (ready ws rv (\<lambda>x. x AND POLLOUT \<noteq> 0)) else {}) w,
                sel_exceptfds = map_option (\<lambda>_. if ret > 0
                    then set (ready ws rv (\<lambda>x. x AND POLLERR \<noteq> 0)) else {}) e,
                sel_calls = [ENTER_CANCELLATION_POINT] @
                  (if npfds > 0 then [KMM_ZALLOC npfds] else []) @
                  [POLL ps npfds msec] @
                  (if npfds > 0 then [KMM_FREE] else []) @
                  (if ret < 0 then [SET_ERRNO err] else []) @
                  [LEAVE_CANCELLATION_POINT]\<rparr>)"
proof (cases "0 < length (watched nfds r w e) \<and> \<not> kmm_zalloc_ok env")
  case True
  then show ?thesis
    by (simp add: select_def count_loop_watched Let_def)
next
  case False
  obtain ret rv err where p: "poll env (map (interest r w e) (watched nfds r w e))
      (set_timeout timeout) = (ret, rv, err)"
    by (cases "poll env (map (interest r w e) (watched nfds r w e)) (set_timeout timeout)")
  have nn: "\<not> count_hits r (ready (watched nfds r w e) rv (\<lambda>x. x AND (POLLIN OR POLLHUP) \<noteq> 0)) +
           count_hits w (ready (watched nfds r w e) rv (\<lambda>x. x AND POLLOUT \<noteq> 0)) +
           count_hits e (ready (watched nfds r w e) rv (\<lambda>x. x AND POLLERR \<noteq> 0)) < 0"
    by (simp add: not_less add_nonneg_nonneg)
  show ?thesis
  proof (cases "0 < ret")
    case pos: True
    with False p nn show ?thesis
      unfolding select_def count_loop_watched init_desc_list_eq Let_def
      by (simp add: reset_fds_def back_desc_list_eq)
  next
    case neg: False
    with False p show ?thesis
      unfolding select_def count_loop_watched init_desc_list_eq Let_def
      by (simp add: reset_fds_def)
  qed
qed

subsection \<open>The concrete call\<close>

lemma demo_watched: "watched 5 (Some {1, 3}) (Some {3}) None = [1, 3]"
  by (simp add: watched_def watched_fd_def isset_def upto_rec1)

lemma demo_set_timeout: "set_timeout (Some demo_timeout) = 2500"
  by (simp add: set_timeout_def demo_timeout_def to_int32_def signed_divide_int_def)

lemma demo_ready:
  "ready [1, 3] (\<lambda>i. if i = 0 then POLLIN else POLLHUP) (\<lambda>x. x AND (POLLIN OR POLLHUP) \<noteq> 0) = [1, 3]"
  "ready [1, 3] (\<lambda>i. if i = 0 then POLLIN else POLLHUP) (\<lambda>x. x AND POLLOUT \<noteq> 0) = []"
  "ready [1, 3] (\<lambda>i. if i = 0 then POLLIN else POLLHUP) (\<lambda>x. x AND POLLERR \<noteq> 0) = []"
  by (simp_all add: ready_def upt_rec POLLIN_def POLLHUP_def POLLOUT_def POLLERR_def)

lemma demo_select:
  "select demo_env 5 (Some {1, 3}) (Some {3}) None (Some demo_timeout) = Some demo_select_out"
  by (simp add: select_eq demo_watched demo_set_timeout demo_ready demo_env_def
      demo_select_out_def interest_def isset_def count_hits_def)

subsection \<open>The timeout passed to \<open>poll\<close>\<close>








subsection \<open>The sets after \<open>poll\<close>\<close>

lemma set_ready: "set (ready ws rv P) = {ws ! i | i. i < length ws \<and> P (rv i)}"
  by (auto simp: ready_def)

lemma count_hits_members:
  "distinct xs \<Longrightarrow> count_hits S xs = int (members (map_option (\<lambda>_. set xs) S))"
  by (cases S) (simp_all add: count_hits_def distinct_card)

text \<open>
  C8. Let \<open>ws\<close> be the watched descriptors in increasing order; the \<open>i\<close>-th
  entry of the array given to \<^verbatim>\<open>poll\<close> is for \<open>ws ! i\<close>, and \<open>rv i\<close> are the
  readiness flags \<^verbatim>\<open>poll\<close> returns for it. When \<^verbatim>\<open>poll\<close> returns a positive
  count, each non-null set holds afterwards exactly the watched descriptors whose
  returned flags include \<^verbatim>\<open>POLLIN\<close> or \<^verbatim>\<open>POLLHUP\<close> (read set),
  \<^verbatim>\<open>POLLOUT\<close> (write set), \<^verbatim>\<open>POLLERR\<close> (exception set), whatever it held
  before; a null set stays null; and \<^verbatim>\<open>select\<close> returns the number of members
  of the three sets together.
\<close>

theorem select_rebuilds_sets:
  assumes "ws = watched nfds readfds writefds exceptfds"
    and "ws = [] \<or> kmm_zalloc_ok env"
    and "poll env (map (interest readfds writefds exceptfds) ws) (set_timeout timeout) = (pr, rv, err)"
    and "0 < pr"
  shows "\<exists>out. select env nfds readfds writefds exceptfds timeout = Some out
      \<and> sel_readfds out = map_option (\<lambda>_.
            {ws ! i | i. i < length ws \<and> (rv i AND POLLIN \<noteq> 0 \<or> rv i AND POLLHUP \<noteq> 0)}) readfds
      \<and> sel_writefds out = map_option (\<lambda>_.
            {ws ! i | i. i < length ws \<and> rv i AND POLLOUT \<noteq> 0}) writefds
      \<and> sel_exceptfds out = map_option (\<lambda>_.
            {ws ! i | i. i < length ws \<and> rv i AND POLLERR \<noteq> 0}) exceptfds
      \<and> sel_ret out =
            int (members (sel_readfds out) + members (sel_writefds out) + members (sel_exceptfds out))"
proof -
  from assms(1) have d: "distinct ws" by (simp add: distinct_watched)
  let ?R = "ready ws rv (\<lambda>x. x AND (POLLIN OR POLLHUP) \<noteq> 0)"
  let ?W = "ready ws rv (\<lambda>x. x AND POLLOUT \<noteq> 0)"
  let ?E = "ready ws rv (\<lambda>x. x AND POLLERR \<noteq> 0)"
  from assms(2) have z: "\<not> (0 < length ws \<and> \<not> kmm_zalloc_ok env)" by auto
  let ?calls = "[ENTER_CANCELLATION_POINT] @
      (if 0 < length ws then [KMM_ZALLOC (length ws)] else []) @
      [POLL (map (interest readfds writefds exceptfds) ws) (length ws) (set_timeout timeout)] @
      (if 0 < length ws then [KMM_FREE] else []) @ [LEAVE_CANCELLATION_POINT]"
  have "select env nfds readfds writefds exceptfds timeout =
       Some \<lparr>sel_ret = count_hits readfds ?R + count_hits writefds ?W + count_hits exceptfds ?E,
         sel_readfds = map_option (\<lambda>_. set ?R) readfds,
         sel_writefds = map_option (\<lambda>_. set ?W) writefds,
         sel_exceptfds = map_option (\<lambda>_. set ?E) exceptfds,
         sel_calls = ?calls\<rparr>"
    unfolding select_eq Let_def assms(1)[symmetric]
    using z assms(3,4) by auto
  moreover have "count_hits readfds ?R + count_hits writefds ?W + count_hits exceptfds ?E =
      int (members (map_option (\<lambda>_. set ?R) readfds) + members (map_option (\<lambda>_. set ?W) writefds)
        + members (map_option (\<lambda>_. set ?E) exceptfds))"
    using d by (simp add: count_hits_members distinct_ready)
  moreover have "set ?R =
      {ws ! i | i. i < length ws \<and> (rv i AND POLLIN \<noteq> 0 \<or> rv i AND POLLHUP \<noteq> 0)}"
    by (simp add: set_ready and_or_nonzero)
  ultimately show ?thesis
    by (simp add: set_ready)
qed

theorem select_rebuilds_sets_witness:
  "[1, 3] = watched 5 (Some {1, 3}) (Some {3}) None
   \<and> kmm_zalloc_ok demo_env
   \<and> poll demo_env (map (interest (Some {1, 3}) (Some {3}) None) [1, 3])
        (set_timeout (Some demo_timeout)) = (1, (\<lambda>i. if i = 0 then POLLIN else POLLHUP), Errno 0)
   \<and> select demo_env 5 (Some {1, 3}) (Some {3}) None (Some demo_timeout) = Some demo_select_out
   \<and> sel_readfds demo_select_out = Some {1, 3}
   \<and> sel_writefds demo_select_out = Some {}
   \<and> sel_exceptfds demo_select_out = None
   \<and> sel_ret demo_select_out = 2"
proof -
  have w: "[1, 3] = watched 5 (Some {1, 3}) (Some {3}) None"
    by (simp add: demo_watched)
  have z: "[1, 3 :: int] = [] \<or> kmm_zalloc_ok demo_env"
    by (simp add: demo_env_def)
  have p: "poll demo_env (map (interest (Some {1, 3}) (Some {3}) None) [1, 3])
        (set_timeout (Some demo_timeout)) = (1, (\<lambda>i. if i = 0 then POLLIN else POLLHUP), Errno 0)"
    by (simp add: demo_env_def)
  have pos: "(0 :: int) < 1" by simp
  from select_rebuilds_sets[OF w z p pos] w z p demo_select show ?thesis
    by (simp add: demo_select_out_def demo_env_def)
qed

subsection \<open>The two counts\<close>

text \<open>
  C10. The count \<^verbatim>\<open>npfds\<close> of the first loop of \<^verbatim>\<open>select\<close> is the number of
  descriptors below \<open>nfds\<close> that are in at least one set, each counted once. On an
  array of \<^verbatim>\<open>npfds\<close> zeroed entries \<^verbatim>\<open>_init_desc_list\<close> writes inside the
  array only, fills one entry for each of these descriptors and returns
  \<^verbatim>\<open>ndx = npfds\<close>. So \<^verbatim>\<open>select\<close> never takes the \<^verbatim>\<open>EINVAL\<close> branch, the
  only return that does not call \<^verbatim>\<open>leave_cancellation_point\<close>: every call
  yields a result whose last call is \<^verbatim>\<open>leave_cancellation_point\<close>.
\<close>

theorem init_desc_list_fills_npfds:
  "count_loop nfds readfds writefds exceptfds 0 0 = length (watched nfds readfds writefds exceptfds)
   \<and> init_desc_list nfds readfds writefds exceptfds
        (replicate (count_loop nfds readfds writefds exceptfds 0 0) zero_pollfd) =
      Some (count_loop nfds readfds writefds exceptfds 0 0,
            map (interest readfds writefds exceptfds) (watched nfds readfds writefds exceptfds))
   \<and> (\<exists>out. select env nfds readfds writefds exceptfds timeout = Some out
         \<and> last (sel_calls out) = LEAVE_CANCELLATION_POINT)"
proof (intro conjI)
  show "count_loop nfds readfds writefds exceptfds 0 0 =
      length (watched nfds readfds writefds exceptfds)"
    by (rule count_loop_watched)
  show "init_desc_list nfds readfds writefds exceptfds
        (replicate (count_loop nfds readfds writefds exceptfds 0 0) zero_pollfd) =
      Some (count_loop nfds readfds writefds exceptfds 0 0,
            map (interest readfds writefds exceptfds) (watched nfds readfds writefds exceptfds))"
    by (simp add: count_loop_watched init_desc_list_eq)
  show "\<exists>out. select env nfds readfds writefds exceptfds timeout = Some out
         \<and> last (sel_calls out) = LEAVE_CANCELLATION_POINT"
    by (auto simp: select_eq Let_def split: prod.splits)
qed

theorem init_desc_list_fills_npfds_witness:
  "count_loop 5 (Some {1, 3}) (Some {3}) None 0 0 = 2
   \<and> init_desc_list 5 (Some {1, 3}) (Some {3}) None (replicate 2 zero_pollfd) =
      Some (2, [\<lparr>fd = 1, events = POLLIN, revents = 0\<rparr>,
                \<lparr>fd = 3, events = POLLIN OR POLLOUT, revents = 0\<rparr>])"
proof -
  note t = init_desc_list_fills_npfds[of 5 "Some {1, 3}" "Some {3}" None demo_env "Some demo_timeout"]
  from t have n: "count_loop 5 (Some {1, 3}) (Some {3}) None 0 0 = 2"
    by (simp add: demo_watched)
  from t have "init_desc_list 5 (Some {1, 3}) (Some {3}) None
        (replicate (count_loop 5 (Some {1, 3}) (Some {3}) None 0 0) zero_pollfd) =
      Some (count_loop 5 (Some {1, 3}) (Some {3}) None 0 0,
            map (interest (Some {1, 3}) (Some {3}) None) (watched 5 (Some {1, 3}) (Some {3}) None))"
    by blast
  with n show ?thesis
    by (simp add: demo_watched interest_def isset_def)
qed

end
